theory Spec2Isabelle
  imports Main "HOL-Library.Word" "HOL-Library.Sublist" "HOL-Library.AList"
begin

unbundle bit_operations_syntax

section \<open>The web terminal server (main.go) as a state-passing model\<close>

text \<open>
  The server of \<^verbatim>\<open>main.go\<close> keeps a global map from session ids to \<^verbatim>\<open>*Session\<close>
  and drives three outside resources: the \<^verbatim>\<open>ip\<close> tool (through \<^verbatim>\<open>exec.Command\<close>),
  QEMU processes on pseudoterminals (through \<^verbatim>\<open>pty.Start\<close>) and WebSocket
  connections. None of the three is code of the repository, so the model takes them as
  an environment: a record of oracles that answer each call from the history of the
  calls made so far. Every call is appended to that history, the \<open>trace\<close>, so what
  the server asked of the outside world, and in which order, can be read off the state.

  \<^item> A Go \<^verbatim>\<open>error\<close> is a \<open>failure option\<close> (\<open>None\<close> is \<^verbatim>\<open>nil\<close>); a runtime panic is the
    failure \<open>Panic\<close>, which passes through \<^verbatim>\<open>fmt.Errorf\<close> wrappers unchanged.
  \<^item> A Go map is an association list; \<^verbatim>\<open>m[k] = v\<close> is \<open>AList.update\<close>, \<^verbatim>\<open>delete(m, k)\<close> is
    \<open>AList.delete\<close>, a lookup is \<open>map_of\<close>. A \<^verbatim>\<open>range\<close> over a map visits the entries in an
    order the runtime chooses; the environment supplies it (\<open>go_range\<close>).
  \<^item> A \<^verbatim>\<open>*Session\<close> is an index into \<open>heap\<close>; the object is allocated where the composite
    literal \<^verbatim>\<open>&Session{...}\<close> stands.
  \<^item> \<^verbatim>\<open>time.Time\<close> values all come from \<^verbatim>\<open>time.Now()\<close> and are compared through their
    monotonic reading: a time is that reading in nanoseconds, an \<open>int\<close>.
  \<^item> \<^verbatim>\<open>log.Printf\<close> appends the message (without the logger's timestamp prefix and the
    final newline) to \<open>logs\<close>.
  \<^item> A handle returned by \<^verbatim>\<open>pty.Start\<close> (the \<^verbatim>\<open>*os.File\<close> and the \<^verbatim>\<open>*exec.Cmd\<close>) is the
    position of that call in the trace.
\<close>

subsection \<open>Strings, bytes and formatting\<close>

type_synonym byte = "8 word"

text \<open>\<^verbatim>\<open>strings.Contains(s, substr)\<close>\<close>

fun strings_Contains :: "string \<Rightarrow> string \<Rightarrow> bool" where
  "strings_Contains [] substr = (substr = [])"
| "strings_Contains (c # cs) substr = (prefix substr (c # cs) \<or> strings_Contains cs substr)"

text \<open>\<^verbatim>\<open>strings.Join(elems, sep)\<close>\<close>

fun strings_Join :: "string list \<Rightarrow> string \<Rightarrow> string" where
  "strings_Join [] sep = []"
| "strings_Join [e] sep = e"
| "strings_Join (e # es) sep = e @ sep @ strings_Join es sep"

text \<open>The verb \<^verbatim>\<open>%v\<close> on a \<^verbatim>\<open>[]string\<close>: the elements between brackets, separated by spaces.\<close>

definition fmt_strings :: "string list \<Rightarrow> string" where
  "fmt_strings xs = ''['' @ strings_Join xs '' '' @ '']''"

text \<open>
  \<^verbatim>\<open>encoding/hex\<close>: \<^verbatim>\<open>hextable = "0123456789abcdef"\<close>, and each byte \<open>v\<close> is written as
  \<^verbatim>\<open>hextable[v>>4]\<close>, \<^verbatim>\<open>hextable[v&0x0f]\<close>. The verb \<^verbatim>\<open>%02x\<close> on a byte gives the same two digits.
\<close>

definition hextable :: string where
  "hextable = ''0123456789abcdef''"

definition hex_byte :: "byte \<Rightarrow> string" where
  "hex_byte v = [hextable ! unat (drop_bit 4 v), hextable ! unat (v AND 0x0f)]"

definition hex_EncodeToString :: "byte list \<Rightarrow> string" where
  "hex_EncodeToString src = concat (map hex_byte src)"

text \<open>Go's integer division truncates towards zero.\<close>

definition go_quo :: "int \<Rightarrow> int \<Rightarrow> int" where
  "go_quo a b = (if (a < 0) = (b < 0) then \<bar>a\<bar> div \<bar>b\<bar> else - (\<bar>a\<bar> div \<bar>b\<bar>))"

subsection \<open>Errors\<close>

datatype failure = Err string | Panic string

text \<open>\<^verbatim>\<open>fmt.Errorf(msg + "%v", err)\<close>: the message of \<open>err\<close> after the text \<open>msg\<close>. A panic is not
  a value the wrapper ever sees: it unwinds through the caller.\<close>

fun wrap :: "string \<Rightarrow> failure \<Rightarrow> failure" where
  "wrap msg (Err e) = Err (msg @ e)"
| "wrap msg (Panic m) = Panic m"

text \<open>\<^verbatim>\<open>err.Error()\<close>\<close>

fun Error :: "failure \<Rightarrow> string" where
  "Error (Err e) = e"
| "Error (Panic m) = m"

subsection \<open>The outside world\<close>

datatype action =
    Exec "string list"      \<comment> \<open>\<^verbatim>\<open>exec.Command(args[0], args[1:]...).CombinedOutput()\<close>\<close>
  | PtyStart "string list"  \<comment> \<open>\<^verbatim>\<open>pty.Start(cmd)\<close>, with the command's argv\<close>
  | Kill nat                \<comment> \<open>\<^verbatim>\<open>cmd.Process.Kill()\<close> on the process of that handle\<close>
  | Close nat               \<comment> \<open>\<^verbatim>\<open>pt.Close()\<close> on the pseudoterminal of that handle\<close>
  | PtyWrite nat string     \<comment> \<open>\<^verbatim>\<open>ptmx.Write(msg)\<close>\<close>
  | RandRead nat            \<comment> \<open>\<^verbatim>\<open>rand.Read(bytes)\<close> on a slice of that length\<close>
  | Now                     \<comment> \<open>\<^verbatim>\<open>time.Now()\<close>\<close>
  | Range                   \<comment> \<open>a \<^verbatim>\<open>range\<close> statement over a map picks its order\<close>
  | Upgrade                 \<comment> \<open>\<^verbatim>\<open>upgrader.Upgrade(w, r, nil)\<close>\<close>
  | WsWrite string          \<comment> \<open>\<^verbatim>\<open>wsConn.WriteMessage\<close>\<close>

text \<open>
  The environment answers each call from the calls made before it. A failing call
  answers \<open>Some\<close> of the error's text.
\<close>

record env =
  exec_CombinedOutput :: "action list \<Rightarrow> string list \<Rightarrow> string option \<times> string"
  pty_Start :: "action list \<Rightarrow> string list \<Rightarrow> string option"
  Process_Kill :: "action list \<Rightarrow> nat \<Rightarrow> string option"
  File_Write :: "action list \<Rightarrow> nat \<Rightarrow> string \<Rightarrow> string option"
  rand_Read :: "action list \<Rightarrow> nat \<Rightarrow> string option \<times> (nat \<Rightarrow> byte)"
  time_Now :: "action list \<Rightarrow> int"
  range_order :: "action list \<Rightarrow> string list"
  ws_Upgrade :: "action list \<Rightarrow> string option"

subsection \<open>Sessions and the server state\<close>

record session =
  hash :: string
  bridgeName :: string
  tapNames :: "(string \<times> string) list"
  ptyFiles :: "(string \<times> nat) list"
  cmds :: "(string \<times> nat) list"
  lastActive :: int

record server =
  heap :: "session list"
  sessions :: "(string \<times> nat) list"
  spawned :: "nat list"
  trace :: "action list"
  logs :: "string list"

text \<open>The state at program start: \<^verbatim>\<open>sessions = make(map[string]*Session)\<close>.\<close>

definition init :: server where
  "init = \<lparr>heap = [], sessions = [], spawned = [], trace = [], logs = []\<rparr>"

text \<open>\<^verbatim>\<open>sessionTimeout = 10 * time.Minute\<close>, in nanoseconds.\<close>

definition sessionTimeout :: int where
  "sessionTimeout = 10 * 60 * 1000000000"

definition did :: "server \<Rightarrow> action \<Rightarrow> server" where
  "did st a = st\<lparr>trace := trace st @ [a]\<rparr>"

definition log_Printf :: "server \<Rightarrow> string \<Rightarrow> server" where
  "log_Printf st msg = st\<lparr>logs := logs st @ [msg]\<rparr>"

text \<open>
  The entries of a map in the order one \<^verbatim>\<open>range\<close> statement visits them: the keys the
  environment names, in its order, then the keys it left out. Each key is visited once.
\<close>

definition go_range :: "string list \<Rightarrow> (string \<times> 'v) list \<Rightarrow> (string \<times> 'v) list" where
  "go_range ks m =
     (let keys = remdups (map fst m) in
      List.map_filter (\<lambda>k. map_option (Pair k) (map_of m k))
        (filter (\<lambda>k. k \<in> set keys) (remdups ks) @ filter (\<lambda>k. k \<notin> set ks) keys))"

subsection \<open>Command executor\<close>

text \<open>\<^verbatim>\<open>runCommand\<close>: \<^verbatim>\<open>args[0]\<close> panics on an empty argument list.\<close>

definition runCommand :: "env \<Rightarrow> server \<Rightarrow> string list \<Rightarrow> server \<times> failure option" where
  "runCommand env st args =
     (case args of
        [] \<Rightarrow> (st, Some (Panic ''index out of range [0] with length 0''))
      | _ # _ \<Rightarrow>
          (case exec_CombinedOutput env (trace st) args of
             (Some e, output) \<Rightarrow>
               (did st (Exec args),
                Some (Err (''command '' @ [CHR 0x27] @ strings_Join args '' '' @ [CHR 0x27]
                             @ '' failed: '' @ e @ '', output: '' @ output)))
           | (None, output) \<Rightarrow> (did st (Exec args), None)))"

text \<open>\<^verbatim>\<open>interfaceExists\<close>\<close>

definition interfaceExists :: "env \<Rightarrow> server \<Rightarrow> string \<Rightarrow> server \<times> (failure + bool)" where
  "interfaceExists env st name =
     (let args = [''ip'', ''link'', ''show'', name] in
      case exec_CombinedOutput env (trace st) args of
        (Some e, output) \<Rightarrow>
          if strings_Contains output ''does not exist''
             \<or> strings_Contains output ''Cannot find device''
             \<or> strings_Contains output ''No such device''
          then (did st (Exec args), Inr False)
          else (did st (Exec args),
                Inl (Err (''error executing 'ip link show '' @ name @ [CHR 0x27] @ '': '' @ e
                            @ '', output: '' @ output)))
      | (None, output) \<Rightarrow> (did st (Exec args), Inr True))"

subsection \<open>Network provisioner\<close>

text \<open>The body of the loop \<^verbatim>\<open>for _, tap := range session.tapNames\<close> of \<^verbatim>\<open>setupNetwork\<close>.\<close>

fun setup_taps :: "env \<Rightarrow> server \<Rightarrow> string \<Rightarrow> string list \<Rightarrow> server \<times> failure option" where
  "setup_taps env st bridge [] = (st, None)"
| "setup_taps env st bridge (tap # taps) =
     (case runCommand env (log_Printf st (''Creating TAP device '' @ tap @ ''...''))
             [''ip'', ''tuntap'', ''add'', ''mode'', ''tap'', tap] of
        (st1, Some f) \<Rightarrow> (st1, Some (wrap (''failed to create TAP device '' @ tap @ '': '') f))
      | (st1, None) \<Rightarrow>
     (case runCommand env
             (log_Printf st1 (''Attaching TAP device '' @ tap @ '' to bridge '' @ bridge @ ''...''))
             [''ip'', ''link'', ''set'', tap, ''master'', bridge] of
        (st2, Some f) \<Rightarrow>
          (st2, Some (wrap (''failed to attach TAP device '' @ tap @ '' to bridge '' @ bridge
                              @ '': '') f))
      | (st2, None) \<Rightarrow>
     (case runCommand env (log_Printf st2 (''Bringing up TAP device '' @ tap @ ''...''))
             [''ip'', ''link'', ''set'', tap, ''up''] of
        (st3, Some f) \<Rightarrow> (st3, Some (wrap (''failed to bring up TAP device '' @ tap @ '': '') f))
      | (st3, None) \<Rightarrow> setup_taps env st3 bridge taps)))"

text \<open>\<^verbatim>\<open>setupNetwork\<close>, from the creation of the bridge on.\<close>

definition setup_bridge :: "env \<Rightarrow> server \<Rightarrow> session \<Rightarrow> server \<times> failure option" where
  "setup_bridge env st s =
     (case runCommand env (log_Printf st (''Creating bridge '' @ bridgeName s @ ''...''))
             [''ip'', ''link'', ''add'', bridgeName s, ''type'', ''bridge''] of
        (st1, Some f) \<Rightarrow> (st1, Some (wrap (''failed to create bridge '' @ bridgeName s @ '': '') f))
      | (st1, None) \<Rightarrow>
     (case runCommand env (log_Printf st1 (''Bringing up bridge '' @ bridgeName s @ ''...''))
             [''ip'', ''link'', ''set'', bridgeName s, ''up''] of
        (st2, Some f) \<Rightarrow>
          (st2, Some (wrap (''failed to bring up bridge '' @ bridgeName s @ '': '') f))
      | (st2, None) \<Rightarrow>
     (case setup_taps env (did st2 Range) (bridgeName s)
             (map snd (go_range (range_order env (trace st2)) (tapNames s))) of
        (st3, Some f) \<Rightarrow> (st3, Some f)
      | (st3, None) \<Rightarrow>
          (log_Printf st3
             (''Network setup for session '' @ hash s @ '' completed successfully.''),
           None))))"

definition setupNetwork :: "env \<Rightarrow> server \<Rightarrow> session \<Rightarrow> server \<times> failure option" where
  "setupNetwork env st s =
     (case interfaceExists env st (bridgeName s) of
        (st1, Inl f) \<Rightarrow>
          (st1, Some (wrap (''error checking existence of bridge '' @ bridgeName s @ '': '') f))
      | (st1, Inr True) \<Rightarrow>
          (case runCommand env
                  (log_Printf st1 (''Bridge '' @ bridgeName s @ '' already exists. Deleting...''))
                  [''ip'', ''link'', ''delete'', bridgeName s, ''type'', ''bridge''] of
             (st2, Some f) \<Rightarrow>
               (st2, Some (wrap (''failed to delete bridge '' @ bridgeName s @ '': '') f))
           | (st2, None) \<Rightarrow> setup_bridge env st2 s)
      | (st1, Inr False) \<Rightarrow> setup_bridge env st1 s)"

text \<open>The loop \<^verbatim>\<open>for _, cmdArgs := range commands\<close> of \<^verbatim>\<open>cleanupNetwork\<close>.\<close>

fun cleanup_commands :: "env \<Rightarrow> server \<Rightarrow> string list list \<Rightarrow> server \<times> failure option" where
  "cleanup_commands env st [] = (st, None)"
| "cleanup_commands env st (cmdArgs # commands) =
     (case runCommand env st cmdArgs of
        (st1, Some (Panic m)) \<Rightarrow> (st1, Some (Panic m))
      | (st1, Some (Err e)) \<Rightarrow>
          if strings_Contains e ''Cannot find device'' \<or> strings_Contains e ''No such device''
          then cleanup_commands env st1 commands
          else cleanup_commands env
                 (log_Printf st1
                    (''Error executing cleanup command '' @ fmt_strings cmdArgs @ '': '' @ e))
                 commands
      | (st1, None) \<Rightarrow>
          cleanup_commands env
            (log_Printf st1 (''Successfully executed cleanup command: '' @ fmt_strings cmdArgs))
            commands)"

text \<open>The slice \<^verbatim>\<open>commands\<close> of \<^verbatim>\<open>cleanupNetwork\<close>, for the taps in the order of the range.\<close>

definition cleanup_list :: "string \<Rightarrow> string list \<Rightarrow> string list list" where
  "cleanup_list bridge taps =
     [[''ip'', ''link'', ''set'', bridge, ''down''],
      [''ip'', ''link'', ''delete'', bridge, ''type'', ''bridge'']]
     @ concat (map (\<lambda>tap. [[''ip'', ''link'', ''set'', tap, ''down''],
                            [''ip'', ''link'', ''delete'', tap]]) taps)"

definition cleanupNetwork :: "env \<Rightarrow> server \<Rightarrow> session \<Rightarrow> server \<times> failure option" where
  "cleanupNetwork env st s =
     cleanup_commands env (did st Range)
       (cleanup_list (bridgeName s)
          (map snd (go_range (range_order env (trace st)) (tapNames s))))"

subsection \<open>Machine supervisor\<close>

text \<open>
  \<^verbatim>\<open>startMachine\<close>. \<^verbatim>\<open>machineID[0]\<close> panics on the empty string; \<^verbatim>\<open>100+machineID[0]\<close> is
  byte arithmetic.
\<close>

definition qemu_args :: "string \<Rightarrow> string \<Rightarrow> char \<Rightarrow> string list" where
  "qemu_args machineID tapDevice c0 =
     (let netDevID = ''net'' @ machineID in
      [''qemu-system-x86_64'',
       ''-accel'', ''kvm'',
       ''-drive'', ''file=debian-12-nocloud-amd64.qcow2,format=qcow2,if=virtio'',
       ''-display'', ''none'',
       ''-netdev'', ''tap,ifname='' @ tapDevice @ '',id='' @ netDevID @ '',script=no,downscript=no'',
       ''-device'', ''virtio-net-pci,netdev='' @ netDevID @ '',mac=e6:c8:ff:09:76:''
                     @ hex_byte (100 + of_char c0),
       ''-chardev'', ''stdio,id=char0,signal=off'',
       ''-serial'', ''chardev:char0'',
       ''-m'', ''256'',
       ''-snapshot'',
       ''-sandbox'', ''on''])"

definition startMachine ::
  "env \<Rightarrow> server \<Rightarrow> nat \<Rightarrow> string \<Rightarrow> string \<Rightarrow> server \<times> failure option" where
  "startMachine env st p machineID tapDevice =
     (case machineID of
        [] \<Rightarrow> (st, Some (Panic ''index out of range [0] with length 0''))
      | c0 # _ \<Rightarrow>
          (let argv = qemu_args machineID tapDevice c0 in
           case pty_Start env (trace st) argv of
             Some e \<Rightarrow>
               (did st (PtyStart argv),
                Some (Err (''error starting QEMU machine '' @ machineID @ '': '' @ e)))
           | None \<Rightarrow>
               (let h = length (trace st);
                    s = heap st ! p;
                    s1 = s\<lparr>ptyFiles := AList.update machineID h (ptyFiles s)\<rparr>;
                    s2 = s1\<lparr>cmds := AList.update machineID h (cmds s1)\<rparr>;
                    st1 = (did st (PtyStart argv))\<lparr>heap := (heap st)[p := s2]\<rparr>
                in (log_Printf st1
                      (''Virtual machine '' @ machineID @ '' in session '' @ hash s2 @ '' started''),
                    None))))"

subsection \<open>Session registry\<close>

text \<open>\<^verbatim>\<open>generateShortHash\<close>. \<^verbatim>\<open>make([]byte, n)\<close> panics on a negative length.\<close>

definition generateShortHash :: "env \<Rightarrow> server \<Rightarrow> int \<Rightarrow> server \<times> (failure + string)" where
  "generateShortHash env st length0 =
     (let length1 = (if length0 > 12 then 12 else length0);
          n = go_quo length1 2
      in if n < 0 then (st, Inl (Panic ''makeslice: len out of range''))
         else (case rand_Read env (trace st) (nat n) of
                 (Some e, bytes) \<Rightarrow> (did st (RandRead (nat n)), Inl (Err e))
               | (None, bytes) \<Rightarrow>
                   (did st (RandRead (nat n)),
                    Inr (hex_EncodeToString (map bytes [0..<nat n])))))"

text \<open>
  \<^verbatim>\<open>createSession\<close>. The result is the new \<^verbatim>\<open>*Session\<close>, or the error. The calls of
  \<^verbatim>\<open>cleanupNetwork\<close> on the two failure paths drop its result, as the code does.
\<close>

definition createSession :: "env \<Rightarrow> server \<Rightarrow> server \<times> (failure + nat)" where
  "createSession env st =
     (case generateShortHash env st 6 of
        (st1, Inl f) \<Rightarrow> (st1, Inl (wrap ''failed to generate hash: '' f))
      | (st1, Inr h) \<Rightarrow>
     (let bridge = ''br-'' @ h; tap1Name = ''tap1-'' @ h; tap2Name = ''tap2-'' @ h in
      if length bridge > 15 \<or> length tap1Name > 15 \<or> length tap2Name > 15
      then (st1, Inl (Err (''interface name too long: '' @ bridge @ '', '' @ tap1Name @ '', ''
                             @ tap2Name)))
      else
     (let p = length (heap st1);
          st2 = (did st1 Now)
                  \<lparr>heap := heap st1 @
                     [\<lparr>hash = h, bridgeName = bridge,
                       tapNames = [(''1'', tap1Name), (''2'', tap2Name)],
                       ptyFiles = [], cmds = [], lastActive = time_Now env (trace st1)\<rparr>]\<rparr>
      in case setupNetwork env st2 (heap st2 ! p) of
           (st3, Some f) \<Rightarrow> (st3, Inl (wrap ''failed to set up network: '' f))
         | (st3, None) \<Rightarrow>
        (case startMachine env st3 p ''1'' tap1Name of
           (st4, Some f) \<Rightarrow>
             (case cleanupNetwork env st4 (heap st4 ! p) of
                (st5, _) \<Rightarrow> (st5, Inl (wrap ''failed to start machine 1: '' f)))
         | (st4, None) \<Rightarrow>
        (case startMachine env st4 p ''2'' tap2Name of
           (st5, Some f) \<Rightarrow>
             (case cleanupNetwork env st5 (heap st5 ! p) of
                (st6, _) \<Rightarrow> (st6, Inl (wrap ''failed to start machine 2: '' f)))
         | (st5, None) \<Rightarrow>
             (log_Printf (st5\<lparr>sessions := AList.update h p (sessions st5)\<rparr>)
                (''Session '' @ h @ '' created''),
              Inr p))))))"

text \<open>
  \<^verbatim>\<open>cleanupSession\<close>. Every handle in \<^verbatim>\<open>session.cmds\<close> and \<^verbatim>\<open>session.ptyFiles\<close> was stored by
  \<^verbatim>\<open>startMachine\<close> after a successful \<^verbatim>\<open>pty.Start\<close>, so the \<^verbatim>\<open>nil\<close> tests of the two loops
  hold for each of them.
\<close>

fun kill_machines :: "env \<Rightarrow> server \<Rightarrow> string \<Rightarrow> (string \<times> nat) list \<Rightarrow> server" where
  "kill_machines env st h [] = st"
| "kill_machines env st h ((machine, cmd) # rest) =
     (case Process_Kill env (trace st) cmd of
        Some e \<Rightarrow>
          kill_machines env
            (log_Printf (did st (Kill cmd)) (''Error terminating machine '' @ machine @ '': '' @ e))
            h rest
      | None \<Rightarrow>
          kill_machines env
            (log_Printf (did st (Kill cmd))
               (''Machine '' @ machine @ '' in session '' @ h @ '' terminated''))
            h rest)"

fun close_ptys :: "server \<Rightarrow> (string \<times> nat) list \<Rightarrow> server" where
  "close_ptys st [] = st"
| "close_ptys st ((machine, pt) # rest) = close_ptys (did st (Close pt)) rest"

definition cleanupSession :: "env \<Rightarrow> server \<Rightarrow> session \<Rightarrow> server" where
  "cleanupSession env st s =
     (let st1 = kill_machines env (did st Range) (hash s)
                  (go_range (range_order env (trace st)) (cmds s));
          st2 = close_ptys (did st1 Range) (go_range (range_order env (trace st1)) (ptyFiles s))
      in case cleanupNetwork env st2 s of
           (st3, Some f) \<Rightarrow>
             log_Printf
               (log_Printf st3
                  (''Error cleaning up network for session '' @ hash s @ '': '' @ Error f))
               (''Session '' @ hash s @ '' removed'')
         | (st3, None) \<Rightarrow>
             log_Printf
               (log_Printf st3 (''Network for session '' @ hash s @ '' cleaned up''))
               (''Session '' @ hash s @ '' removed''))"

text \<open>
  \<^verbatim>\<open>closeSessionHandler\<close>, on the query parameter \<^verbatim>\<open>sessionID\<close> (empty when absent). The
  result is the HTTP status and the message given to \<^verbatim>\<open>http.Error\<close> (empty for the status
  200).
\<close>

definition closeSessionHandler :: "env \<Rightarrow> server \<Rightarrow> string \<Rightarrow> server \<times> nat \<times> string" where
  "closeSessionHandler env st sessionID =
     (if sessionID = [] then (st, 400, ''Missing sessionID'')
      else case map_of (sessions st) sessionID of
             None \<Rightarrow> (st, 404, ''Session not found'')
           | Some p \<Rightarrow>
               (let st1 = st\<lparr>sessions := AList.delete sessionID (sessions st)\<rparr>;
                    st2 = cleanupSession env st1 (heap st1 ! p)
                in (log_Printf st2 (''Session '' @ sessionID @ '' terminated by client request''),
                    200, [])))"

subsection \<open>Idle reaper\<close>

text \<open>
  \<^verbatim>\<open>time.Since(t)\<close> is \<^verbatim>\<open>time.Now().Sub(t)\<close>, and \<^verbatim>\<open>Sub\<close> saturates at the ends of the range
  of \<^verbatim>\<open>time.Duration\<close> (an \<^verbatim>\<open>int64\<close>).
\<close>

definition time_Sub :: "int \<Rightarrow> int \<Rightarrow> int" where
  "time_Sub t u =
     (let d = t - u in
      if d > 2 ^ 63 - 1 then 2 ^ 63 - 1 else if d < - (2 ^ 63) then - (2 ^ 63) else d)"

text \<open>
  One tick of \<^verbatim>\<open>sessionCleaner\<close>: the loop over \<^verbatim>\<open>sessions\<close> between \<^verbatim>\<open>sessionsMu.Lock()\<close> and
  \<^verbatim>\<open>sessionsMu.Unlock()\<close>. \<^verbatim>\<open>go cleanupSession(session)\<close> records the session in
  \<open>spawned\<close>; the goroutine runs later (\<open>run_spawned\<close>).
\<close>

fun reap :: "env \<Rightarrow> server \<Rightarrow> (string \<times> nat) list \<Rightarrow> server" where
  "reap env st [] = st"
| "reap env st ((id0, p) # rest) =
     (if time_Sub (time_Now env (trace st)) (lastActive (heap st ! p)) > sessionTimeout
      then reap env
             ((log_Printf (did st Now)
                 (''Session '' @ id0 @ '' inactive for more than 10m0s and will be removed''))
                \<lparr>sessions := AList.delete id0 (sessions st), spawned := spawned st @ [p]\<rparr>)
             rest
      else reap env (did st Now) rest)"

definition sessionCleaner_tick :: "env \<Rightarrow> server \<Rightarrow> server" where
  "sessionCleaner_tick env st =
     reap env (did st Range) (go_range (range_order env (trace st)) (sessions st))"

text \<open>A goroutine started by the reaper runs \<^verbatim>\<open>cleanupSession\<close> on its session.\<close>

definition run_spawned :: "env \<Rightarrow> server \<Rightarrow> nat \<Rightarrow> server" where
  "run_spawned env st i =
     (if i < length (spawned st)
      then cleanupSession env
             (st\<lparr>spawned := take i (spawned st) @ drop (Suc i) (spawned st)\<rparr>)
             (heap st ! (spawned st ! i))
      else st)"

subsection \<open>Bridge engine (the part of wsHandler that touches the registry)\<close>

text \<open>The message types of the WebSocket library: \<^verbatim>\<open>TextMessage = 1\<close>, \<^verbatim>\<open>BinaryMessage = 2\<close>.\<close>

definition TextMessage :: int where "TextMessage = 1"
definition BinaryMessage :: int where "BinaryMessage = 2"

datatype attach =
    HttpError nat string   \<comment> \<open>rejected before the upgrade, with status and message\<close>
  | UpgradeFailed          \<comment> \<open>\<^verbatim>\<open>upgrader.Upgrade\<close> returned an error\<close>
  | NoPty                  \<comment> \<open>the session has no pseudoterminal for the machine id\<close>
  | Attached nat nat       \<comment> \<open>the \<^verbatim>\<open>*Session\<close> and the pseudoterminal the loops run on\<close>

text \<open>
  \<^verbatim>\<open>wsHandler\<close> up to the start of the two pumps, on the query parameters \<^verbatim>\<open>sessionID\<close> and
  \<^verbatim>\<open>machine\<close>.
\<close>

definition wsHandler_attach :: "env \<Rightarrow> server \<Rightarrow> string \<Rightarrow> string \<Rightarrow> server \<times> attach" where
  "wsHandler_attach env st sessionID machineID =
     (if sessionID = [] then (st, HttpError 400 ''Missing sessionID'')
      else if machineID \<noteq> ''1'' \<and> machineID \<noteq> ''2''
      then (st, HttpError 400 ''Invalid machine ID'')
      else case map_of (sessions st) sessionID of
             None \<Rightarrow> (st, HttpError 404 ''Session not found'')
           | Some p \<Rightarrow>
               (let st1 = (did st Now)
                            \<lparr>heap := (heap st)[p := (heap st ! p)
                                       \<lparr>lastActive := time_Now env (trace st)\<rparr>]\<rparr>
                in case ws_Upgrade env (trace st1) of
                     Some e \<Rightarrow>
                       (log_Printf (did st1 Upgrade) (''Error upgrading to WebSocket: '' @ e),
                        UpgradeFailed)
                   | None \<Rightarrow>
                       (case map_of (ptyFiles (heap st1 ! p)) machineID of
                          None \<Rightarrow>
                            (did (log_Printf (did st1 Upgrade) (''Invalid machine ID: '' @ machineID))
                               (WsWrite ''Invalid machine ID''),
                             NoPty)
                        | Some ptmx \<Rightarrow> (did st1 Upgrade, Attached p ptmx))))"

text \<open>What one call of \<^verbatim>\<open>wsConn.ReadMessage()\<close> returns.\<close>

datatype ws_read = ReadError string | Message int string

text \<open>
  One iteration of the loop \<^verbatim>\<open>for { messageType, msg, err := wsConn.ReadMessage() ... }\<close> on
  the session \<open>p\<close> and the pseudoterminal \<open>ptmx\<close>; the flag tells whether the loop goes on.
\<close>

definition ws_read_step :: "env \<Rightarrow> server \<Rightarrow> nat \<Rightarrow> nat \<Rightarrow> ws_read \<Rightarrow> server \<times> bool" where
  "ws_read_step env st p ptmx r =
     (case r of
        ReadError e \<Rightarrow> (log_Printf st (''Error reading from WebSocket: '' @ e), False)
      | Message messageType msg \<Rightarrow>
          (let touch = (\<lambda>st0. (did st0 Now)
                          \<lparr>heap := (heap st0)[p := (heap st0 ! p)
                                     \<lparr>lastActive := time_Now env (trace st0)\<rparr>]\<rparr>)
           in if messageType = BinaryMessage \<or> messageType = TextMessage
              then (case File_Write env (trace st) ptmx msg of
                      Some e \<Rightarrow>
                        (log_Printf (did st (PtyWrite ptmx msg))
                           (''Error writing to machine PTY: '' @ e),
                         False)
                    | None \<Rightarrow> (touch (did st (PtyWrite ptmx msg)), True))
              else (touch st, True)))"

text \<open>The loop on the messages the connection delivers, in order.\<close>

fun ws_read_loop :: "env \<Rightarrow> server \<Rightarrow> nat \<Rightarrow> nat \<Rightarrow> ws_read list \<Rightarrow> server" where
  "ws_read_loop env st p ptmx [] = st"
| "ws_read_loop env st p ptmx (r # rs) =
     (case ws_read_step env st p ptmx r of
        (st1, True) \<Rightarrow> ws_read_loop env st1 p ptmx rs
      | (st1, False) \<Rightarrow> st1)"

section \<open>Notions used to state and prove the claims\<close>

subsection \<open>Maps, commands and logs\<close>

text \<open>The keys of a map in the order of \<open>go_range\<close>.\<close>

definition range_keys :: "string list \<Rightarrow> (string \<times> 'v) list \<Rightarrow> string list" where
  "range_keys ks m =
     filter (\<lambda>k. k \<in> set (remdups (map fst m))) (remdups ks)
     @ filter (\<lambda>k. k \<notin> set ks) (remdups (map fst m))"

text \<open>The text of the error \<^verbatim>\<open>runCommand\<close> returns for a failed command.\<close>

definition command_failed :: "string list \<Rightarrow> string \<Rightarrow> string \<Rightarrow> string" where
  "command_failed args e output =
     ''command '' @ [CHR 0x27] @ strings_Join args '' '' @ [CHR 0x27] @ '' failed: '' @ e
       @ '', output: '' @ output"

text \<open>The test of \<^verbatim>\<open>cleanupNetwork\<close> on an error's text: the device is already gone.\<close>

definition already_gone :: "string \<Rightarrow> bool" where
  "already_gone msg =
     (strings_Contains msg ''Cannot find device'' \<or> strings_Contains msg ''No such device'')"

text \<open>What \<^verbatim>\<open>cleanupNetwork\<close> logs for one command, run after the history \<open>t\<close>.\<close>

definition cleanup_log :: "env \<Rightarrow> action list \<Rightarrow> string list \<Rightarrow> string list" where
  "cleanup_log env t args =
     (case exec_CombinedOutput env t args of
        (None, output) \<Rightarrow> [''Successfully executed cleanup command: '' @ fmt_strings args]
      | (Some e, output) \<Rightarrow>
          if already_gone (command_failed args e output) then []
          else [''Error executing cleanup command '' @ fmt_strings args @ '': ''
                  @ command_failed args e output])"

text \<open>The commands among the calls of a trace, in order.\<close>

fun execs :: "action list \<Rightarrow> string list list" where
  "execs [] = []"
| "execs (Exec args # acts) = args # execs acts"
| "execs (a # acts) = execs acts"

text \<open>Every command among the calls \<open>acts\<close>, made after the history \<open>t\<close>, returned no error.\<close>

fun answered_ok :: "env \<Rightarrow> action list \<Rightarrow> action list \<Rightarrow> bool" where
  "answered_ok env t [] = True"
| "answered_ok env t (a # acts) =
     ((case a of Exec args \<Rightarrow> fst (exec_CombinedOutput env t args) = None | _ \<Rightarrow> True)
      \<and> answered_ok env (t @ [a]) acts)"

subsection \<open>The plan of setupNetwork\<close>

text \<open>The three steps on one tap device, inside \<open>setup_plan\<close>.\<close>

definition tap_steps :: "string \<Rightarrow> string \<Rightarrow> (string list \<times> string) list" where
  "tap_steps bridge tap =
     [([''ip'', ''tuntap'', ''add'', ''mode'', ''tap'', tap],
       ''failed to create TAP device '' @ tap),
      ([''ip'', ''link'', ''set'', tap, ''master'', bridge],
       ''failed to attach TAP device '' @ tap @ '' to bridge '' @ bridge),
      ([''ip'', ''link'', ''set'', tap, ''up''],
       ''failed to bring up TAP device '' @ tap)]"

text \<open>The two steps on the bridge, inside \<open>setup_plan\<close>.\<close>

definition bridge_steps :: "string \<Rightarrow> (string list \<times> string) list" where
  "bridge_steps bridge =
     [([''ip'', ''link'', ''add'', bridge, ''type'', ''bridge''],
       ''failed to create bridge '' @ bridge),
      ([''ip'', ''link'', ''set'', bridge, ''up''],
       ''failed to bring up bridge '' @ bridge)]"

text \<open>
  The steps of \<^verbatim>\<open>setupNetwork\<close> after the existence check, each with the text that
  names the step and the interface in the error of a failure: delete the bridge when the
  check found it, create the bridge, bring it up, then for each tap create it, attach it to
  the bridge and bring it up.
\<close>

definition setup_plan :: "string \<Rightarrow> bool \<Rightarrow> string list \<Rightarrow> (string list \<times> string) list" where
  "setup_plan bridge found taps =
     (if found
      then [([''ip'', ''link'', ''delete'', bridge, ''type'', ''bridge''],
             ''failed to delete bridge '' @ bridge)]
      else [])
     @ [([''ip'', ''link'', ''add'', bridge, ''type'', ''bridge''],
         ''failed to create bridge '' @ bridge),
        ([''ip'', ''link'', ''set'', bridge, ''up''],
         ''failed to bring up bridge '' @ bridge)]
     @ concat (map (tap_steps bridge) taps)"

text \<open>
  The calls \<open>acts\<close>, made after the history \<open>t\<close> and ending in the result \<open>r\<close>, follow
  the steps: on success every step was run, in order, and each command returned no error;
  on failure the steps up to some step \<open>n\<close> were run, in order, all before it returned no
  error, step \<open>n\<close> failed and was the last call, and the error is the text of step \<open>n\<close>
  followed by the command's failure.
\<close>

definition follows ::
  "env \<Rightarrow> action list \<Rightarrow> action list \<Rightarrow> (string list \<times> string) list \<Rightarrow> failure option \<Rightarrow> bool"
  where
  "follows env t acts steps r =
     (case r of
        None \<Rightarrow> execs acts = map fst steps \<and> answered_ok env t acts
      | Some f \<Rightarrow>
          (\<exists>n e out. n < length steps \<and> acts \<noteq> [] \<and> last acts = Exec (fst (steps ! n)) \<and>
             execs acts = map fst (take (Suc n) steps) \<and>
             answered_ok env t (butlast acts) \<and>
             exec_CombinedOutput env (t @ butlast acts) (fst (steps ! n)) = (Some e, out) \<and>
             f = Err (snd (steps ! n) @ '': '' @ command_failed (fst (steps ! n)) e out)))"

subsection \<open>Sessions in the registry\<close>

text \<open>The test of the reaper on a session, at the clock reading \<open>now\<close>.\<close>

definition expired :: "int \<Rightarrow> session \<Rightarrow> bool" where
  "expired now s = (now - lastActive s > sessionTimeout)"

text \<open>The interface names of a session: its bridge and its tap devices.\<close>

definition interface_names :: "session \<Rightarrow> string set" where
  "interface_names s = insert (bridgeName s) (snd ` set (tapNames s))"

text \<open>The session object \<^verbatim>\<open>createSession\<close> builds for the hash \<open>h\<close> at the time \<open>now\<close>.\<close>

definition new_session :: "string \<Rightarrow> int \<Rightarrow> session" where
  "new_session h now =
     \<lparr>hash = h, bridgeName = ''br-'' @ h,
      tapNames = [(''1'', ''tap1-'' @ h), (''2'', ''tap2-'' @ h)],
      ptyFiles = [], cmds = [], lastActive = now\<rparr>"

text \<open>
  The machine \<open>machineID\<close> was launched on the tap \<open>tap\<close> by the call at position \<open>h\<close> of
  the trace \<open>t\<close>, and that call of \<^verbatim>\<open>pty.Start\<close> returned no error.
\<close>

definition launched :: "env \<Rightarrow> action list \<Rightarrow> string \<Rightarrow> string \<Rightarrow> nat \<Rightarrow> bool" where
  "launched env t machineID tap h =
     (h < length t \<and> t ! h = PtyStart (qemu_args machineID tap (hd machineID)) \<and>
      pty_Start env (take h t) (qemu_args machineID tap (hd machineID)) = None)"

text \<open>
  Somewhere in the trace \<open>t\<close> the network of the session \<open>s\<close> was set up: the existence
  check on its bridge and then every step of the plan, each command returning no error.
\<close>

definition network_up :: "env \<Rightarrow> action list \<Rightarrow> session \<Rightarrow> bool" where
  "network_up env t s =
     (\<exists>t0 acts found ord.
        prefix (t0 @ Exec [''ip'', ''link'', ''show'', bridgeName s] # acts) t \<and>
        distinct (map fst ord) \<and> set ord = Map.graph (map_of (tapNames s)) \<and>
        follows env (t0 @ [Exec [''ip'', ''link'', ''show'', bridgeName s]]) acts
          (setup_plan (bridgeName s) found (map snd ord)) None)"

text \<open>
  The object at \<open>p\<close> is a fully provisioned session with the id \<open>k\<close>: its names are
  derived from \<open>k\<close>, its network was set up, and it holds one pseudoterminal handle and
  one process handle for each of the machines 1 and 2, both from a successful launch.
\<close>

definition provisioned :: "env \<Rightarrow> server \<Rightarrow> string \<Rightarrow> nat \<Rightarrow> bool" where
  "provisioned env st k p =
     (p < length (heap st) \<and>
      hash (heap st ! p) = k \<and> bridgeName (heap st ! p) = ''br-'' @ k \<and>
      tapNames (heap st ! p) = [(''1'', ''tap1-'' @ k), (''2'', ''tap2-'' @ k)] \<and>
      network_up env (trace st) (heap st ! p) \<and>
      (\<exists>h1 h2. ptyFiles (heap st ! p) = [(''1'', h1), (''2'', h2)] \<and>
               cmds (heap st ! p) = [(''1'', h1), (''2'', h2)] \<and>
               launched env (trace st) ''1'' (''tap1-'' @ k) h1 \<and>
               launched env (trace st) ''2'' (''tap2-'' @ k) h2))"

text \<open>Every session in the registry is fully provisioned, under its id.\<close>

definition registry_inv :: "env \<Rightarrow> server \<Rightarrow> bool" where
  "registry_inv env st = (\<forall>k p. map_of (sessions st) k = Some p \<longrightarrow> provisioned env st k p)"

subsection \<open>The server as a transition system\<close>

text \<open>A state \<open>st'\<close> that differs from \<open>st\<close> in the trace and the log at most: the heap of
  sessions, the registry and the list of started goroutines are the same.\<close>

definition same_store :: "server \<Rightarrow> server \<Rightarrow> bool" where
  "same_store st st' =
     (heap st' = heap st \<and> sessions st' = sessions st \<and> spawned st' = spawned st)"

text \<open>The trace of \<open>st'\<close> is the trace of \<open>st\<close> with further calls appended.\<close>

definition extends :: "server \<Rightarrow> server \<Rightarrow> bool" where
  "extends st st' = (\<exists>ext. trace st' = trace st @ ext)"

text \<open>
  The handlers as steps of a transition system. Each handler runs as one step; a
  message on a WebSocket connection is a step of its own, on any session object and
  pseudoterminal a connection may hold; a goroutine started by the reaper runs as a
  later step.
\<close>

inductive step :: "env \<Rightarrow> server \<Rightarrow> server \<Rightarrow> bool" for env where
  create: "step env st (fst (createSession env st))"
| close: "step env st (fst (closeSessionHandler env st sessionID))"
| attach: "step env st (fst (wsHandler_attach env st sessionID machineID))"
| message: "p < length (heap st) \<Longrightarrow> step env st (fst (ws_read_step env st p ptmx r))"
| tick: "step env st (sessionCleaner_tick env st)"
| goroutine: "step env st (run_spawned env st i)"

inductive reachable :: "env \<Rightarrow> server \<Rightarrow> bool" for env where
  start: "reachable env init"
| later: "reachable env st \<Longrightarrow> step env st st' \<Longrightarrow> reachable env st'"

text \<open>
  What a step may do to the session objects: the trace grows, no object goes away, an
  object that was there is left alone or gets a clock reading taken during the step as
  its \<^verbatim>\<open>lastActive\<close>, and a new object carries such a reading.
\<close>

definition evolves :: "env \<Rightarrow> server \<Rightarrow> server \<Rightarrow> bool" where
  "evolves env st st' =
     (extends st st' \<and> length (heap st) \<le> length (heap st') \<and>
      (\<forall>q<length (heap st').
         (q < length (heap st) \<and> heap st' ! q = heap st ! q) \<or>
         (\<exists>t1. prefix (trace st) t1 \<and> prefix t1 (trace st') \<and>
               lastActive (heap st' ! q) = time_Now env t1 \<and>
               (q < length (heap st) \<longrightarrow>
                  heap st' ! q = (heap st ! q)\<lparr>lastActive := time_Now env t1\<rparr>))))"

text \<open>The clock never goes back: a reading is at most any later reading.\<close>

definition mono_clock :: "env \<Rightarrow> bool" where
  "mono_clock env = (\<forall>t ext. time_Now env t \<le> time_Now env (t @ ext))"

text \<open>No session object carries a time stamp from the future.\<close>

definition clock_inv :: "env \<Rightarrow> server \<Rightarrow> bool" where
  "clock_inv env st =
     (\<forall>q<length (heap st). \<forall>ext. lastActive (heap st ! q) \<le> time_Now env (trace st @ ext))"

subsection \<open>Sample environments and states\<close>

text \<open>
  Concrete environments for the runs evaluated below. In \<open>env_ok\<close> every call succeeds:
  \<^verbatim>\<open>ip link show\<close> reports that the device is absent, every other command exits with
  status 0, QEMU starts, the random bytes are all \<^verbatim>\<open>0xab\<close>, the clock ticks once per call
  and every \<^verbatim>\<open>range\<close> visits its map in insertion order.
\<close>

definition env_ok :: env where
  "env_ok =
     \<lparr>exec_CombinedOutput =
        (\<lambda>t args. if take 3 args = [''ip'', ''link'', ''show'']
                   then (Some ''exit status 1'', ''Device does not exist.'')
                   else (None, [])),
      pty_Start = (\<lambda>t argv. None),
      Process_Kill = (\<lambda>t h. None),
      File_Write = (\<lambda>t h msg. None),
      rand_Read = (\<lambda>t n. (None, (\<lambda>i. 0xab))),
      time_Now = (\<lambda>t. int (length t)),
      range_order = (\<lambda>t. []),
      ws_Upgrade = (\<lambda>t. None)\<rparr>"

text \<open>An environment in which every command fails for want of privilege.\<close>

definition env_denied :: env where
  "env_denied = env_ok
     \<lparr>exec_CombinedOutput :=
        (\<lambda>t args. (Some ''exit status 2'', ''RTNETLINK answers: Operation not permitted''))\<rparr>"

text \<open>Two environments for failed provisioning: in the first the launch of machine 2
  fails, in the second the creation of a tap device does.\<close>

definition env_vm2_fails :: env where
  "env_vm2_fails = env_ok
     \<lparr>pty_Start :=
        (\<lambda>t argv. if ''virtio-net-pci,netdev=net2,mac=e6:c8:ff:09:76:96'' \<in> set argv
                   then Some ''fork/exec /usr/bin/qemu-system-x86_64: cannot allocate memory''
                   else None)\<rparr>"

definition env_tap_fails :: env where
  "env_tap_fails = env_ok
     \<lparr>exec_CombinedOutput :=
        (\<lambda>t args. if take 3 args = [''ip'', ''link'', ''show'']
                   then (Some ''exit status 1'', ''Device does not exist.'')
                   else if take 3 args = [''ip'', ''tuntap'', ''add'']
                   then (Some ''exit status 1'', ''ioctl(TUNSETIFF): Device or resource busy'')
                   else (None, []))\<rparr>"

text \<open>An environment whose clock stands at 1000 seconds.\<close>

definition env_late :: env where
  "env_late = env_ok\<lparr>time_Now := (\<lambda>t. 1000000000000)\<rparr>"

text \<open>The environment \<open>env_ok\<close>, except that every write to a pseudoterminal fails.\<close>

definition env_write_fails :: env where
  "env_write_fails = env_ok
     \<lparr>File_Write := (\<lambda>t h msg. Some ''write /dev/ptmx: input/output error'')\<rparr>"

text \<open>An environment whose random source gives \<^verbatim>\<open>0xab\<close> for the first session and \<^verbatim>\<open>0xcd\<close>
  for every later one.\<close>

definition env_two :: env where
  "env_two = env_ok\<lparr>rand_Read := (\<lambda>t n. (None, (\<lambda>i. if t = [] then 0xab else 0xcd)))\<rparr>"

text \<open>A session as \<^verbatim>\<open>createSession\<close> leaves it in \<open>env_ok\<close>.\<close>

definition session0 :: session where
  "session0 =
     \<lparr>hash = ''ababab'', bridgeName = ''br-ababab'',
      tapNames = [(''1'', ''tap1-ababab''), (''2'', ''tap2-ababab'')],
      ptyFiles = [(''1'', 12), (''2'', 13)], cmds = [(''1'', 12), (''2'', 13)],
      lastActive = 1\<rparr>"

text \<open>The server after one successful \<^verbatim>\<open>createSession\<close> in \<open>env_ok\<close>: it holds the session
  \<^verbatim>\<open>ababab\<close>.\<close>

definition server1 :: server where
  "server1 = fst (createSession env_ok init)"

text \<open>The server after two sessions were created in \<open>env_two\<close>: it holds the sessions
  \<^verbatim>\<open>ababab\<close> and \<^verbatim>\<open>cdcdcd\<close>.\<close>

definition server2 :: server where
  "server2 = fst (createSession env_two (fst (createSession env_two init)))"

section \<open>Basic facts about the model\<close>

subsection \<open>Hexadecimal encoding\<close>

lemma nib_hi: "unat (drop_bit 4 (v::byte)) < 16"
proof -
  have "unat v < 2 ^ 8" using unsigned_less [of v] by simp
  moreover have "unat (drop_bit 4 v) = unat v div 2 ^ 4"
    by (subst unat_drop_bit_eq) (simp add: drop_bit_eq_div)
  ultimately show ?thesis by simp
qed

lemma nib_lo: "unat ((v::byte) AND 0x0f) < 16"
proof -
  have "v AND 0x0f \<le> 0x0f" by (rule word_and_le1)
  then have "unat (v AND 0x0f) \<le> unat (0x0f :: byte)" by (simp only: word_le_nat_alt)
  then show ?thesis by simp
qed

lemma hextable_nth: "i < 16 \<Longrightarrow> hextable ! i \<in> set hextable"
  by (rule nth_mem) (simp add: hextable_def)

lemma length_hex_byte: "length (hex_byte v) = 2"
  by (simp add: hex_byte_def)

lemma set_hex_byte: "set (hex_byte v) \<subseteq> set hextable"
  by (simp add: hex_byte_def hextable_nth nib_hi nib_lo)

lemma length_hex_EncodeToString: "length (hex_EncodeToString src) = 2 * length src"
  by (induction src) (simp_all add: hex_EncodeToString_def length_hex_byte)

lemma set_hex_EncodeToString: "set (hex_EncodeToString src) \<subseteq> set hextable"
  using set_hex_byte by (auto simp: hex_EncodeToString_def)

lemma nat_go_quo_2: "nat (go_quo a 2) = nat (a div 2)"
  by (simp add: go_quo_def)

subsection \<open>What each operation leaves alone\<close>

lemma did_simps [simp]:
  "heap (did st a) = heap st" "sessions (did st a) = sessions st"
  "spawned (did st a) = spawned st" "logs (did st a) = logs st"
  "trace (did st a) = trace st @ [a]"
  by (simp_all add: did_def)

lemma log_Printf_simps [simp]:
  "heap (log_Printf st m) = heap st" "sessions (log_Printf st m) = sessions st"
  "spawned (log_Printf st m) = spawned st" "logs (log_Printf st m) = logs st @ [m]"
  "trace (log_Printf st m) = trace st"
  by (simp_all add: log_Printf_def)

text \<open>The provisioning commands touch the outside world only.\<close>

lemma runCommand_store: "runCommand env st args = (st', r) \<Longrightarrow> same_store st st'"
  by (auto simp: runCommand_def same_store_def split: list.splits prod.splits option.splits)

lemma interfaceExists_store: "interfaceExists env st name = (st', r) \<Longrightarrow> same_store st st'"
  by (auto simp: interfaceExists_def Let_def same_store_def
           split: prod.splits option.splits if_splits)

lemma setup_taps_store: "setup_taps env st bridge taps = (st', r) \<Longrightarrow> same_store st st'"
proof (induction taps arbitrary: st)
  case Nil
  then show ?case by (simp add: same_store_def)
next
  case (Cons tap taps)
  then show ?case
    by (auto simp: same_store_def split: prod.splits option.splits dest!: runCommand_store)
qed

lemma setup_bridge_store: "setup_bridge env st s = (st', r) \<Longrightarrow> same_store st st'"
  by (auto simp: setup_bridge_def same_store_def split: prod.splits option.splits
           dest!: runCommand_store setup_taps_store)

lemma setupNetwork_store: "setupNetwork env st s = (st', r) \<Longrightarrow> same_store st st'"
  by (auto simp: setupNetwork_def same_store_def
           split: prod.splits option.splits sum.splits bool.splits
           dest!: runCommand_store setup_bridge_store interfaceExists_store)

lemma cleanup_commands_store: "cleanup_commands env st cs = (st', r) \<Longrightarrow> same_store st st'"
proof (induction cs arbitrary: st)
  case Nil
  then show ?case by (simp add: same_store_def)
next
  case (Cons c cs)
  then show ?case
    by (auto simp: same_store_def split: prod.splits option.splits failure.splits if_splits
             dest!: runCommand_store)
qed

lemma cleanupNetwork_store: "cleanupNetwork env st s = (st', r) \<Longrightarrow> same_store st st'"
  by (auto simp: cleanupNetwork_def same_store_def dest!: cleanup_commands_store)

lemma startMachine_ok:
  "startMachine env st p m tap = (st', None) \<Longrightarrow>
     sessions st' = sessions st \<and> spawned st' = spawned st \<and>
     heap st' = (heap st)[p := (heap st ! p)
        \<lparr>ptyFiles := AList.update m (length (trace st)) (ptyFiles (heap st ! p)),
         cmds := AList.update m (length (trace st)) (cmds (heap st ! p))\<rparr>]"
  by (auto simp: startMachine_def Let_def split: list.splits option.splits)

lemma startMachine_fail:
  "startMachine env st p m tap = (st', Some f) \<Longrightarrow> same_store st st'"
  by (auto simp: startMachine_def Let_def same_store_def split: list.splits option.splits)

text \<open>Every operation only appends to the trace.\<close>

lemma runCommand_extends: "runCommand env st args = (st', r) \<Longrightarrow> extends st st'"
  by (auto simp: runCommand_def extends_def split: list.splits prod.splits option.splits)

lemma interfaceExists_extends: "interfaceExists env st name = (st', r) \<Longrightarrow> extends st st'"
  by (auto simp: interfaceExists_def Let_def extends_def
           split: prod.splits option.splits if_splits)

lemma setup_taps_extends: "setup_taps env st bridge taps = (st', r) \<Longrightarrow> extends st st'"
proof (induction taps arbitrary: st)
  case Nil
  then show ?case by (simp add: extends_def)
next
  case (Cons tap taps)
  then show ?case
    by (fastforce simp: extends_def split: prod.splits option.splits dest!: runCommand_extends)
qed

lemma setup_bridge_extends: "setup_bridge env st s = (st', r) \<Longrightarrow> extends st st'"
  by (fastforce simp: setup_bridge_def extends_def split: prod.splits option.splits
           dest!: runCommand_extends setup_taps_extends)

lemma setupNetwork_extends: "setupNetwork env st s = (st', r) \<Longrightarrow> extends st st'"
  by (fastforce simp: setupNetwork_def extends_def
           split: prod.splits option.splits sum.splits bool.splits
           dest!: runCommand_extends setup_bridge_extends interfaceExists_extends)

lemma cleanup_commands_extends: "cleanup_commands env st cs = (st', r) \<Longrightarrow> extends st st'"
proof (induction cs arbitrary: st)
  case Nil
  then show ?case by (simp add: extends_def)
next
  case (Cons c cs)
  then show ?case
    by (fastforce simp: extends_def split: prod.splits option.splits failure.splits if_splits
             dest!: runCommand_extends)
qed

lemma cleanupNetwork_extends: "cleanupNetwork env st s = (st', r) \<Longrightarrow> extends st st'"
  by (fastforce simp: cleanupNetwork_def extends_def dest!: cleanup_commands_extends)

lemma startMachine_extends: "startMachine env st p m tap = (st', r) \<Longrightarrow> extends st st'"
  by (auto simp: startMachine_def Let_def extends_def split: list.splits option.splits)

subsection \<open>What a call of createSession returns\<close>

lemma generateShortHash_6:
  "generateShortHash env st 6 = (st1, r) \<Longrightarrow>
     st1 = did st (RandRead 3) \<and>
     (\<forall>h. r = Inr h \<longrightarrow> length h = 6 \<and> set h \<subseteq> set hextable)"
  using set_hex_EncodeToString
  by (auto simp: generateShortHash_def Let_def go_quo_def length_hex_EncodeToString
           split: prod.splits option.splits)

lemma createSession_ok:
  assumes "createSession env st = (st', Inr p)"
  shows "p = length (heap st) \<and> length (heap st') = Suc (length (heap st)) \<and>
         take (length (heap st)) (heap st') = heap st \<and> spawned st' = spawned st \<and>
         (\<exists>h. length h = 6 \<and> set h \<subseteq> set hextable \<and>
              sessions st' = AList.update h p (sessions st) \<and>
              hash (heap st' ! p) = h \<and> bridgeName (heap st' ! p) = ''br-'' @ h \<and>
              tapNames (heap st' ! p) = [(''1'', ''tap1-'' @ h), (''2'', ''tap2-'' @ h)] \<and>
              map fst (ptyFiles (heap st' ! p)) = [''1'', ''2''] \<and>
              map fst (cmds (heap st' ! p)) = [''1'', ''2''] \<and>
              lastActive (heap st' ! p) = time_Now env (trace st @ [RandRead 3]))"
  using assms
  apply (simp add: createSession_def Let_def split: prod.splits sum.splits option.splits if_splits)
  apply (elim conjE exE)
  apply (drule generateShortHash_6 setupNetwork_store startMachine_ok)+
  apply (auto simp: same_store_def nth_append)
  done

lemma createSession_extends:
  "createSession env st = (st', r) \<Longrightarrow> \<exists>ext. trace st' = trace st @ RandRead 3 # ext"
  apply (simp add: createSession_def Let_def split: prod.splits sum.splits option.splits if_splits)
  apply (fastforce simp: extends_def
           dest!: generateShortHash_6 setupNetwork_extends startMachine_extends
                  cleanupNetwork_extends)+
  done

lemma wrap_Err: "wrap msg f = Err m \<Longrightarrow> \<exists>e. f = Err e \<and> m = msg @ e"
  by (cases f) auto

lemma createSession_err_text:
  assumes "createSession env st = (st', Inl (Err m))"
  shows "prefix ''failed to '' m"
  using assms
  apply (simp add: createSession_def Let_def split: prod.splits sum.splits option.splits if_splits)
      apply (auto dest!: generateShortHash_6 wrap_Err)
  done

lemma generateShortHash_result:
  assumes "generateShortHash env st n = (st1, Inr h)"
  shows "h = hex_EncodeToString
               (map (snd (rand_Read env (trace st) (nat (min n 12 div 2))))
                    [0..<nat (min n 12 div 2)]) \<and>
         length h = 2 * nat (min n 12 div 2) \<and> set h \<subseteq> set ''0123456789abcdef''"
proof -
  have m: "(if n > 12 then 12 else n) = min n 12" by simp
  from assms have "h = hex_EncodeToString
               (map (snd (rand_Read env (trace st) (nat (min n 12 div 2))))
                    [0..<nat (min n 12 div 2)])"
    by (auto simp: generateShortHash_def Let_def m nat_go_quo_2
             split: if_splits prod.splits option.splits)
  then show ?thesis
    using set_hex_EncodeToString
    by (simp add: length_hex_EncodeToString hextable_def)
qed

lemma generateShortHash_6_value:
  "generateShortHash env st 6 = (st1, Inr h) \<Longrightarrow>
     h = hex_EncodeToString (map (snd (rand_Read env (trace st) 3)) [0..<3])"
  using generateShortHash_result [of env st 6 st1 h] by simp

lemma createSession_hash:
  assumes "createSession env st = (st', Inr p)"
  shows "hash (heap st' ! p)
           = hex_EncodeToString (map (snd (rand_Read env (trace st) 3)) [0..<3])"
  using assms
  apply (simp add: createSession_def Let_def split: prod.splits sum.splits option.splits if_splits)
  apply (elim conjE exE)
  apply (frule generateShortHash_6_value)
  apply (drule generateShortHash_6 setupNetwork_store startMachine_ok)+
  apply (auto simp: same_store_def nth_append)
  done

lemma generateShortHash_returns:
  assumes "0 \<le> n" and "fst (rand_Read env (trace st) (nat (min n 12 div 2))) = None"
  shows "\<exists>h. snd (generateShortHash env st n) = Inr h"
proof -
  have m: "(if n > 12 then 12 else n) = min n 12" by simp
  have "\<not> go_quo (min n 12) 2 < 0" using assms(1) by (simp add: go_quo_def)
  then show ?thesis using assms(2)
    by (auto simp: generateShortHash_def Let_def m nat_go_quo_2 split: prod.splits option.splits)
qed

subsection \<open>Ranging over a map\<close>

lemma distinct_range_keys: "distinct (range_keys ks m)"
  by (auto simp: range_keys_def)

lemma set_range_keys: "set (range_keys ks m) = fst ` set m"
  by (auto simp: range_keys_def)

lemma map_filter_lookup:
  "set xs \<subseteq> fst ` set m \<Longrightarrow>
   List.map_filter (\<lambda>k. map_option (Pair k) (map_of m k)) xs
     = map (\<lambda>k. (k, the (map_of m k))) xs"
proof (induction xs)
  case Nil
  then show ?case by (simp add: List.map_filter_simps)
next
  case (Cons x xs)
  then have "x \<in> dom (map_of m)" by (simp add: dom_map_of_conv_image_fst)
  then obtain v where "map_of m x = Some v" by blast
  with Cons show ?case by (simp add: List.map_filter_simps)
qed

lemma go_range_eq:
  "go_range ks m = map (\<lambda>k. (k, the (map_of m k))) (range_keys ks m)"
  unfolding go_range_def Let_def range_keys_def [symmetric]
  by (rule map_filter_lookup) (simp add: set_range_keys)

lemma map_fst_go_range: "map fst (go_range ks m) = range_keys ks m"
  by (simp add: go_range_eq comp_def)

lemma distinct_go_range: "distinct (map fst (go_range ks m))"
  by (simp add: map_fst_go_range distinct_range_keys)

lemma set_go_range: "set (go_range ks m) = Map.graph (map_of m)"
proof -
  have "\<And>k v. (k, v) \<in> set (go_range ks m) \<longleftrightarrow> map_of m k = Some v"
  proof -
    fix k v
    have "k \<in> fst ` set m \<longleftrightarrow> (\<exists>w. map_of m k = Some w)"
      using dom_map_of_conv_image_fst [of m] by (auto simp: dom_def)
    then show "(k, v) \<in> set (go_range ks m) \<longleftrightarrow> map_of m k = Some v"
      by (auto simp: go_range_eq set_range_keys)
  qed
  then show ?thesis by (auto simp: Map.graph_def)
qed

lemma go_range_distinct_keys:
  "distinct (map fst m) \<Longrightarrow> set (go_range ks m) = set m"
  by (auto simp: set_go_range Map.graph_def)

subsection \<open>The cleanup loop\<close>

lemma runCommand_eq:
  "args \<noteq> [] \<Longrightarrow>
   runCommand env st args =
     (did st (Exec args),
      case exec_CombinedOutput env (trace st) args of
        (None, output) \<Rightarrow> None
      | (Some e, output) \<Rightarrow> Some (Err (command_failed args e output)))"
  by (cases args) (auto simp: runCommand_def command_failed_def split: prod.splits option.splits)

lemma upt_Suc_shift: "[0..<Suc n] = 0 # map Suc [0..<n]"
  by (simp only: upt_conv_Cons [OF zero_less_Suc] map_Suc_upt)

lemma cleanup_commands_step:
  assumes "c \<noteq> []"
  shows "cleanup_commands env st (c # cs) =
           cleanup_commands env
             (st\<lparr>trace := trace st @ [Exec c],
                 logs := logs st @ cleanup_log env (trace st) c\<rparr>) cs"
proof (cases "exec_CombinedOutput env (trace st) c")
  case (Pair r out)
  show ?thesis
  proof (cases r)
    case None
    with Pair show ?thesis
      by (simp add: runCommand_eq [OF assms] cleanup_log_def did_def log_Printf_def)
  next
    case (Some e)
    with Pair show ?thesis
      by (simp add: runCommand_eq [OF assms] cleanup_log_def already_gone_def did_def
                    log_Printf_def)
  qed
qed

lemma cleanup_commands_run:
  assumes "[] \<notin> set cs"
  shows "snd (cleanup_commands env st cs) = None \<and>
         trace (fst (cleanup_commands env st cs)) = trace st @ map Exec cs \<and>
         logs (fst (cleanup_commands env st cs)) =
           logs st @ concat (map (\<lambda>i. cleanup_log env (trace st @ map Exec (take i cs)) (cs ! i))
                               [0..<length cs])"
  using assms
proof (induction cs arbitrary: st)
  case Nil
  then show ?case by simp
next
  case (Cons c cs)
  then have c: "c \<noteq> []" and cs: "[] \<notin> set cs" by auto
  show ?case
    unfolding cleanup_commands_step [OF c] using Cons.IH [OF cs]
    by (simp add: upt_Suc_shift comp_def del: upt_Suc)
qed

lemma cleanup_list_nonempty: "[] \<notin> set (cleanup_list bridge taps)"
  by (auto simp: cleanup_list_def)

lemma cleanupNetwork_result: "snd (cleanupNetwork env st s) = None"
  by (simp add: cleanupNetwork_def cleanup_commands_run cleanup_list_nonempty)

lemma cleanupNetwork_run:
  "snd (cleanupNetwork env st s) = None \<and>
   same_store st (fst (cleanupNetwork env st s)) \<and>
   (let cmds = cleanup_list (bridgeName s)
                 (map snd (go_range (range_order env (trace st)) (tapNames s)))
    in trace (fst (cleanupNetwork env st s)) = trace st @ Range # map Exec cmds \<and>
       logs (fst (cleanupNetwork env st s)) =
         logs st @ concat (map (\<lambda>i. cleanup_log env (trace st @ Range # map Exec (take i cmds))
                                        (cmds ! i))
                             [0..<length cmds]))"
  using cleanupNetwork_store [of env st s]
  by (simp add: cleanupNetwork_def cleanup_commands_run cleanup_list_nonempty Let_def
                prod_eq_iff)

subsection \<open>The setup sequence\<close>

lemma execs_append: "execs (xs @ ys) = execs xs @ execs ys"
  by (induction xs rule: execs.induct) auto

lemma answered_ok_append:
  "answered_ok env t (xs @ ys) = (answered_ok env t xs \<and> answered_ok env (t @ xs) ys)"
  by (induction xs arbitrary: t) auto

lemma follows_append_ok:
  assumes "follows env t a1 s1 None" and "follows env (t @ a1) a2 s2 r"
  shows "follows env t (a1 @ a2) (s1 @ s2) r"
proof (cases r)
  case None
  with assms show ?thesis
    by (simp add: follows_def execs_append answered_ok_append)
next
  case (Some f)
  with assms(2) obtain n e out where
    n: "n < length s2" "a2 \<noteq> []" "last a2 = Exec (fst (s2 ! n))"
       "execs a2 = map fst (take (Suc n) s2)" "answered_ok env (t @ a1) (butlast a2)"
       "exec_CombinedOutput env (t @ a1 @ butlast a2) (fst (s2 ! n)) = (Some e, out)"
       "f = Err (snd (s2 ! n) @ '': '' @ command_failed (fst (s2 ! n)) e out)"
    by (auto simp: follows_def)
  from assms(1) have a1: "execs a1 = map fst s1" "answered_ok env t a1"
    by (simp_all add: follows_def)
  have k: "length s1 + n < length (s1 @ s2)" "(s1 @ s2) ! (length s1 + n) = s2 ! n"
    "take (Suc (length s1 + n)) (s1 @ s2) = s1 @ take (Suc n) s2"
    "butlast (a1 @ a2) = a1 @ butlast a2" "last (a1 @ a2) = last a2"
    using n(1,2) by (simp_all add: nth_append butlast_append)
  show ?thesis
    unfolding follows_def Some option.case
    apply (rule exI [of _ "length s1 + n"], rule exI [of _ e], rule exI [of _ out])
    using n a1 k by (simp add: execs_append answered_ok_append del: take_append)
qed

lemma follows_fail_more:
  assumes "follows env t a1 s1 (Some f)"
  shows "follows env t a1 (s1 @ s2) (Some f)"
proof -
  from assms obtain n e out where
    n: "n < length s1" "a1 \<noteq> []" "last a1 = Exec (fst (s1 ! n))"
       "execs a1 = map fst (take (Suc n) s1)" "answered_ok env t (butlast a1)"
       "exec_CombinedOutput env (t @ butlast a1) (fst (s1 ! n)) = (Some e, out)"
       "f = Err (snd (s1 ! n) @ '': '' @ command_failed (fst (s1 ! n)) e out)"
    by (auto simp: follows_def)
  show ?thesis
    unfolding follows_def option.case
    apply (rule exI [of _ n], rule exI [of _ e], rule exI [of _ out])
    using n by (simp add: nth_append)
qed

lemma follows_skip:
  assumes "execs [a] = []" and "follows env (t @ [a]) acts steps r"
  shows "follows env t (a # acts) steps r"
proof -
  have "follows env t [a] [] None"
    using assms(1) by (cases a) (simp_all add: follows_def)
  from follows_append_ok [OF this assms(2)] show ?thesis by simp
qed

lemma runCommand_follows:
  assumes "args \<noteq> []" and "runCommand env st args = (st', r)"
  shows "trace st' = trace st @ [Exec args] \<and>
         follows env (trace st) [Exec args] [(args, label)]
           (map_option (wrap (label @ '': '')) r)"
  using assms(2) unfolding runCommand_eq [OF assms(1)]
  by (auto simp: follows_def split: prod.splits option.splits)

lemma follows_step:
  assumes args: "args \<noteq> []" and run: "runCommand env st0 args = (st1, r1)"
    and t0: "trace st0 = trace st"
    and fail: "\<And>f. r1 = Some f \<Longrightarrow> st' = st1 \<and> r = Some (wrap (label @ '': '') f)"
    and ok: "r1 = None \<Longrightarrow>
               \<exists>acts. trace st' = trace st1 @ acts \<and> follows env (trace st1) acts steps r"
  shows "\<exists>acts. trace st' = trace st @ acts \<and>
                follows env (trace st) acts ((args, label) # steps) r"
proof -
  from runCommand_follows [OF args run, of label] t0
  have t1: "trace st1 = trace st @ [Exec args]"
    and f1: "follows env (trace st) [Exec args] [(args, label)]
               (map_option (wrap (label @ '': '')) r1)"
    by simp_all
  show ?thesis
  proof (cases r1)
    case None
    from ok [OF None] obtain acts where
      a: "trace st' = trace st1 @ acts" "follows env (trace st1) acts steps r" by blast
    from f1 None have "follows env (trace st) [Exec args] [(args, label)] None" by simp
    from follows_append_ok [OF this a(2) [unfolded t1]] a(1) t1
    show ?thesis by (intro exI [of _ "Exec args # acts"]) simp
  next
    case (Some f)
    from fail [OF Some] have s: "st' = st1" "r = Some (wrap (label @ '': '') f)" by simp_all
    from f1 Some s have "follows env (trace st) [Exec args] [(args, label)] r" by simp
    then have "follows env (trace st) [Exec args] ([(args, label)] @ steps) r"
      unfolding s(2) by (rule follows_fail_more)
    with t1 s(1) show ?thesis by (intro exI [of _ "[Exec args]"]) simp
  qed
qed

lemma setup_taps_follows:
  "setup_taps env st bridge taps = (st', r) \<Longrightarrow>
     \<exists>acts. trace st' = trace st @ acts \<and>
            follows env (trace st) acts (concat (map (tap_steps bridge) taps)) r"
proof (induction taps arbitrary: st)
  case Nil
  then show ?case by (simp add: follows_def)
next
  case (Cons tap taps)
  obtain st1 r1 where 1: "runCommand env (log_Printf st (''Creating TAP device '' @ tap @ ''...''))
             [''ip'', ''tuntap'', ''add'', ''mode'', ''tap'', tap] = (st1, r1)"
    by fastforce
  obtain st2 r2 where 2: "runCommand env
             (log_Printf st1 (''Attaching TAP device '' @ tap @ '' to bridge '' @ bridge @ ''...''))
             [''ip'', ''link'', ''set'', tap, ''master'', bridge] = (st2, r2)"
    by fastforce
  obtain st3 r3 where 3: "runCommand env
             (log_Printf st2 (''Bringing up TAP device '' @ tap @ ''...''))
             [''ip'', ''link'', ''set'', tap, ''up''] = (st3, r3)"
    by fastforce
  have "\<exists>acts. trace st' = trace st @ acts \<and>
          follows env (trace st) acts
            (([''ip'', ''tuntap'', ''add'', ''mode'', ''tap'', tap],
              ''failed to create TAP device '' @ tap) #
             ([''ip'', ''link'', ''set'', tap, ''master'', bridge],
              ''failed to attach TAP device '' @ tap @ '' to bridge '' @ bridge) #
             ([''ip'', ''link'', ''set'', tap, ''up''],
              ''failed to bring up TAP device '' @ tap) #
             concat (map (tap_steps bridge) taps)) r"
  proof (rule follows_step [OF _ 1])
    fix f assume "r1 = Some f"
    with Cons.prems 1 show "st' = st1 \<and> r = Some (wrap ((''failed to create TAP device '' @ tap) @ '': '') f)"
      by simp
  next
    assume n1: "r1 = None"
    show "\<exists>acts. trace st' = trace st1 @ acts \<and>
          follows env (trace st1) acts
            (([''ip'', ''link'', ''set'', tap, ''master'', bridge],
              ''failed to attach TAP device '' @ tap @ '' to bridge '' @ bridge) #
             ([''ip'', ''link'', ''set'', tap, ''up''],
              ''failed to bring up TAP device '' @ tap) #
             concat (map (tap_steps bridge) taps)) r"
    proof (rule follows_step [OF _ 2])
      fix f assume "r2 = Some f"
      with Cons.prems 1 2 n1
      show "st' = st2 \<and> r = Some (wrap ((''failed to attach TAP device '' @ tap @ '' to bridge '' @ bridge) @ '': '') f)"
        by simp
    next
      assume n2: "r2 = None"
      show "\<exists>acts. trace st' = trace st2 @ acts \<and>
          follows env (trace st2) acts
            (([''ip'', ''link'', ''set'', tap, ''up''],
              ''failed to bring up TAP device '' @ tap) #
             concat (map (tap_steps bridge) taps)) r"
      proof (rule follows_step [OF _ 3])
        fix f assume "r3 = Some f"
        with Cons.prems 1 2 3 n1 n2
        show "st' = st3 \<and> r = Some (wrap ((''failed to bring up TAP device '' @ tap) @ '': '') f)"
          by simp
      next
        assume n3: "r3 = None"
        with Cons.prems 1 2 3 n1 n2 have "setup_taps env st3 bridge taps = (st', r)" by simp
        from Cons.IH [OF this]
        show "\<exists>acts. trace st' = trace st3 @ acts \<and>
               follows env (trace st3) acts (concat (map (tap_steps bridge) taps)) r" .
      qed simp_all
    qed simp_all
  qed simp_all
  then show ?case by (simp add: tap_steps_def [of bridge tap])
qed

lemma setup_plan_eq:
  "setup_plan bridge found taps =
     (if found
      then [([''ip'', ''link'', ''delete'', bridge, ''type'', ''bridge''],
             ''failed to delete bridge '' @ bridge)]
      else [])
     @ bridge_steps bridge @ concat (map (tap_steps bridge) taps)"
  by (simp add: setup_plan_def bridge_steps_def)

lemma interfaceExists_trace:
  "interfaceExists env st name = (st1, x) \<Longrightarrow>
     trace st1 = trace st @ [Exec [''ip'', ''link'', ''show'', name]]"
  by (auto simp: interfaceExists_def Let_def split: prod.splits option.splits if_splits)

lemma setup_bridge_follows:
  assumes "setup_bridge env st s = (st', r)"
  shows "\<exists>acts ord. trace st' = trace st @ acts \<and>
           distinct (map fst ord) \<and> set ord = Map.graph (map_of (tapNames s)) \<and>
           follows env (trace st) acts
             (bridge_steps (bridgeName s) @ concat (map (tap_steps (bridgeName s)) (map snd ord))) r"
proof -
  let ?br = "bridgeName s"
  obtain st1 r1 where 1: "runCommand env (log_Printf st (''Creating bridge '' @ ?br @ ''...''))
             [''ip'', ''link'', ''add'', ?br, ''type'', ''bridge''] = (st1, r1)"
    by fastforce
  obtain st2 r2 where 2: "runCommand env (log_Printf st1 (''Bringing up bridge '' @ ?br @ ''...''))
             [''ip'', ''link'', ''set'', ?br, ''up''] = (st2, r2)"
    by fastforce
  define ord where "ord = go_range (range_order env (trace st2)) (tapNames s)"
  have ord: "distinct (map fst ord)" "set ord = Map.graph (map_of (tapNames s))"
    by (simp_all add: ord_def distinct_go_range set_go_range)
  have "\<exists>acts. trace st' = trace st @ acts \<and>
          follows env (trace st) acts
            (([''ip'', ''link'', ''add'', ?br, ''type'', ''bridge''],
              ''failed to create bridge '' @ ?br) #
             ([''ip'', ''link'', ''set'', ?br, ''up''], ''failed to bring up bridge '' @ ?br) #
             concat (map (tap_steps ?br) (map snd ord))) r"
  proof (rule follows_step [OF _ 1])
    fix f assume "r1 = Some f"
    with assms 1 show "st' = st1 \<and> r = Some (wrap ((''failed to create bridge '' @ ?br) @ '': '') f)"
      by (simp add: setup_bridge_def)
  next
    assume n1: "r1 = None"
    show "\<exists>acts. trace st' = trace st1 @ acts \<and>
          follows env (trace st1) acts
            (([''ip'', ''link'', ''set'', ?br, ''up''], ''failed to bring up bridge '' @ ?br) #
             concat (map (tap_steps ?br) (map snd ord))) r"
    proof (rule follows_step [OF _ 2])
      fix f assume "r2 = Some f"
      with assms 1 2 n1
      show "st' = st2 \<and> r = Some (wrap ((''failed to bring up bridge '' @ ?br) @ '': '') f)"
        by (simp add: setup_bridge_def)
    next
      assume n2: "r2 = None"
      obtain st3 r3 where 3: "setup_taps env (did st2 Range) ?br (map snd ord) = (st3, r3)"
        by fastforce
      from setup_taps_follows [OF 3] obtain acts where
        a: "trace st3 = trace st2 @ Range # acts"
           "follows env (trace st2 @ [Range]) acts (concat (map (tap_steps ?br) (map snd ord))) r3"
        by auto
      have f: "follows env (trace st2) (Range # acts)
                 (concat (map (tap_steps ?br) (map snd ord))) r3"
        by (rule follows_skip [OF _ a(2)]) simp
      from assms 1 2 3 n1 n2 have "trace st' = trace st3 \<and> r = r3"
        by (auto simp: setup_bridge_def ord_def split: option.splits)
      with a(1) f show "\<exists>acts. trace st' = trace st2 @ acts \<and>
          follows env (trace st2) acts (concat (map (tap_steps ?br) (map snd ord))) r"
        by auto
    qed simp_all
  qed simp_all
  with ord show ?thesis unfolding bridge_steps_def by auto
qed

lemma setupNetwork_follows:
  assumes "setupNetwork env st s = (st', r)"
    and "interfaceExists env st (bridgeName s) = (st1, Inr found)"
  shows "\<exists>acts ord. trace st' = trace st @ Exec [''ip'', ''link'', ''show'', bridgeName s] # acts \<and>
           distinct (map fst ord) \<and> set ord = Map.graph (map_of (tapNames s)) \<and>
           follows env (trace st @ [Exec [''ip'', ''link'', ''show'', bridgeName s]]) acts
             (setup_plan (bridgeName s) found (map snd ord)) r"
proof -
  let ?br = "bridgeName s"
  note t1 = interfaceExists_trace [OF assms(2)]
  show ?thesis
  proof (cases found)
    case False
    with assms have "setup_bridge env st1 s = (st', r)" by (simp add: setupNetwork_def)
    from setup_bridge_follows [OF this] False t1 show ?thesis
      by (auto simp: setup_plan_eq)
  next
    case True
    obtain st2 r2 where 2: "runCommand env
                  (log_Printf st1 (''Bridge '' @ ?br @ '' already exists. Deleting...''))
                  [''ip'', ''link'', ''delete'', ?br, ''type'', ''bridge''] = (st2, r2)"
      by fastforce
    show ?thesis
    proof (cases r2)
      case (Some f)
      have "\<exists>acts. trace st' = trace st1 @ acts \<and>
          follows env (trace st1) acts
            (([''ip'', ''link'', ''delete'', ?br, ''type'', ''bridge''],
              ''failed to delete bridge '' @ ?br) #
             bridge_steps ?br @ concat (map (tap_steps ?br) (map snd (go_range [] (tapNames s))))) r"
      proof (rule follows_step [OF _ 2])
        fix f assume "r2 = Some f"
        with assms 2 True
        show "st' = st2 \<and> r = Some (wrap ((''failed to delete bridge '' @ ?br) @ '': '') f)"
          by (simp add: setupNetwork_def)
      qed (simp_all add: Some)
      then obtain acts where
        "trace st' = trace st1 @ acts"
        "follows env (trace st1) acts
            (([''ip'', ''link'', ''delete'', ?br, ''type'', ''bridge''],
              ''failed to delete bridge '' @ ?br) #
             bridge_steps ?br @ concat (map (tap_steps ?br) (map snd (go_range [] (tapNames s))))) r"
        by blast
      then show ?thesis
        unfolding t1 using True
        by (intro exI [of _ acts] exI [of _ "go_range [] (tapNames s)"])
           (simp add: setup_plan_eq distinct_go_range set_go_range)
    next
      case None
      with assms 2 True have b: "setup_bridge env st2 s = (st', r)"
        by (simp add: setupNetwork_def)
      from setup_bridge_follows [OF b] obtain acts ord where
        a: "trace st' = trace st2 @ acts" "distinct (map fst ord)"
           "set ord = Map.graph (map_of (tapNames s))"
           "follows env (trace st2) acts
             (bridge_steps ?br @ concat (map (tap_steps ?br) (map snd ord))) r"
        by blast
      have "\<exists>acts. trace st' = trace st1 @ acts \<and>
          follows env (trace st1) acts
            (([''ip'', ''link'', ''delete'', ?br, ''type'', ''bridge''],
              ''failed to delete bridge '' @ ?br) #
             bridge_steps ?br @ concat (map (tap_steps ?br) (map snd ord))) r"
      proof (rule follows_step [OF _ 2])
        show "\<exists>acts. trace st' = trace st2 @ acts \<and>
               follows env (trace st2) acts
                 (bridge_steps ?br @ concat (map (tap_steps ?br) (map snd ord))) r"
          using a by blast
      qed (simp_all add: None)
      then show ?thesis
        unfolding t1 using True a(2,3)
        by (auto simp: setup_plan_eq)
    qed
  qed
qed


subsection \<open>Teardown of a session\<close>

lemma kill_machines_store: "same_store st (kill_machines env st h ms)"
  by (induction ms arbitrary: st) (auto simp: same_store_def split: option.splits)

lemma close_ptys_store: "same_store st (close_ptys st ms)"
  by (induction ms arbitrary: st) (auto simp: same_store_def)

lemma kill_machines_extends: "extends st (kill_machines env st h ms)"
proof (induction ms arbitrary: st)
  case Nil
  then show ?case by (simp add: extends_def)
next
  case (Cons m ms)
  obtain machine cmd where m: "m = (machine, cmd)" by (cases m)
  show ?case
    using Cons [of "log_Printf (did st (Kill cmd)) x" for x]
    by (auto simp: m extends_def split: option.splits)
qed

lemma close_ptys_extends: "extends st (close_ptys st ms)"
proof (induction ms arbitrary: st)
  case Nil
  then show ?case by (simp add: extends_def)
next
  case (Cons m ms)
  obtain machine pt where m: "m = (machine, pt)" by (cases m)
  show ?case
    using Cons [of "did st (Close pt)"] by (auto simp: m extends_def)
qed

lemma cleanupSession_store: "same_store st (cleanupSession env st s)"
proof -
  obtain st3 r where c: "cleanupNetwork env
      (close_ptys (did (kill_machines env (did st Range) (hash s)
                          (go_range (range_order env (trace st)) (cmds s))) Range)
         (go_range (range_order env
             (trace (kill_machines env (did st Range) (hash s)
                          (go_range (range_order env (trace st)) (cmds s))))) (ptyFiles s)))
      s = (st3, r)" by fastforce
  from cleanupNetwork_store [OF c]
    kill_machines_store [of "did st Range" env "hash s"
        "go_range (range_order env (trace st)) (cmds s)"]
    close_ptys_store [of "did (kill_machines env (did st Range) (hash s)
                          (go_range (range_order env (trace st)) (cmds s))) Range"
         "go_range (range_order env
             (trace (kill_machines env (did st Range) (hash s)
                          (go_range (range_order env (trace st)) (cmds s))))) (ptyFiles s)"]
  show ?thesis
    by (cases r) (simp_all add: cleanupSession_def Let_def c same_store_def)
qed

lemma cleanupSession_extends: "extends st (cleanupSession env st s)"
proof -
  obtain st3 r where c: "cleanupNetwork env
      (close_ptys (did (kill_machines env (did st Range) (hash s)
                          (go_range (range_order env (trace st)) (cmds s))) Range)
         (go_range (range_order env
             (trace (kill_machines env (did st Range) (hash s)
                          (go_range (range_order env (trace st)) (cmds s))))) (ptyFiles s)))
      s = (st3, r)" by fastforce
  from cleanupNetwork_extends [OF c]
    kill_machines_extends [of "did st Range" env "hash s"
        "go_range (range_order env (trace st)) (cmds s)"]
    close_ptys_extends [of "did (kill_machines env (did st Range) (hash s)
                          (go_range (range_order env (trace st)) (cmds s))) Range"
         "go_range (range_order env
             (trace (kill_machines env (did st Range) (hash s)
                          (go_range (range_order env (trace st)) (cmds s))))) (ptyFiles s)"]
  show ?thesis
    by (cases r) (auto simp add: cleanupSession_def Let_def c extends_def)
qed

lemma closeSessionHandler_ok:
  assumes "closeSessionHandler env st sid = (st1, 200, body)"
  shows "\<exists>p. map_of (sessions st) sid = Some p \<and> sid \<noteq> [] \<and>
             sessions st1 = AList.delete sid (sessions st) \<and> heap st1 = heap st \<and>
             spawned st1 = spawned st"
  using assms cleanupSession_store [of "st\<lparr>sessions := AList.delete sid (sessions st)\<rparr>" env]
  by (auto simp: closeSessionHandler_def Let_def same_store_def split: if_splits option.splits)

subsection \<open>The reaper's loop\<close>

lemma time_Sub_gt: "(time_Sub t u > sessionTimeout) = (t - u > sessionTimeout)"
  by (auto simp: time_Sub_def sessionTimeout_def Let_def)

lemma reap_Cons:
  "reap env st ((k, p) # rest) =
     reap env
       (if expired (time_Now env (trace st)) (heap st ! p)
        then (log_Printf (did st Now)
                 (''Session '' @ k @ '' inactive for more than 10m0s and will be removed''))
                \<lparr>sessions := AList.delete k (sessions st), spawned := spawned st @ [p]\<rparr>
        else did st Now) rest"
  by (simp add: expired_def time_Sub_gt)

lemma reap_heap: "heap (reap env st ord) = heap st"
  by (induction ord arbitrary: st) (auto simp: reap_Cons simp del: reap.simps(2))

lemma reap_trace: "trace (reap env st ord) = trace st @ replicate (length ord) Now"
  by (induction ord arbitrary: st)
     (auto simp: reap_Cons replicate_append_same simp del: reap.simps(2))

lemma reap_other:
  "k \<notin> fst ` set ord \<Longrightarrow> map_of (sessions (reap env st ord)) k = map_of (sessions st) k"
  by (induction ord arbitrary: st)
     (auto simp: reap_Cons delete_conv' simp del: reap.simps(2))

lemma reap_subset:
  "map_of (sessions (reap env st ord)) k = Some q \<Longrightarrow> map_of (sessions st) k = Some q"
proof (induction ord arbitrary: st)
  case Nil
  then show ?case by simp
next
  case (Cons e ord)
  obtain k0 p0 where e: "e = (k0, p0)" by (cases e)
  from Cons.prems Cons.IH show ?case
    unfolding e reap_Cons
    by (fastforce simp: delete_conv' split: if_splits)
qed

lemma reap_spawned_mono: "set (spawned st) \<subseteq> set (spawned (reap env st ord))"
proof (induction ord arbitrary: st)
  case Nil
  then show ?case by simp
next
  case (Cons e ord)
  obtain k0 p0 where e: "e = (k0, p0)" by (cases e)
  show ?case
    unfolding e reap_Cons
    using Cons.IH [of "did st Now"]
      Cons.IH [of "(log_Printf (did st Now)
                 (''Session '' @ k0 @ '' inactive for more than 10m0s and will be removed''))
                \<lparr>sessions := AList.delete k0 (sessions st), spawned := spawned st @ [p0]\<rparr>"]
    by auto
qed

lemma reap_entry:
  assumes "(k, p) \<in> set ord" and "distinct (map fst ord)" and "map_of (sessions st) k = Some p"
  shows "\<exists>i<length ord.
           (if expired (time_Now env (trace st @ replicate i Now)) (heap st ! p)
            then map_of (sessions (reap env st ord)) k = None \<and>
                 p \<in> set (spawned (reap env st ord))
            else map_of (sessions (reap env st ord)) k = Some p)"
  using assms
proof (induction ord arbitrary: st)
  case Nil
  then show ?case by simp
next
  case (Cons e ord)
  obtain k0 p0 where e: "e = (k0, p0)" by (cases e)
  let ?st1 = "if expired (time_Now env (trace st)) (heap st ! p0)
        then (log_Printf (did st Now)
                 (''Session '' @ k0 @ '' inactive for more than 10m0s and will be removed''))
                \<lparr>sessions := AList.delete k0 (sessions st), spawned := spawned st @ [p0]\<rparr>
        else did st Now"
  have r: "reap env st (e # ord) = reap env ?st1 ord" unfolding e by (rule reap_Cons)
  have h1: "heap ?st1 = heap st" and t1: "trace ?st1 = trace st @ [Now]" by simp_all
  show ?case
  proof (cases "k = k0")
    case True
    with Cons.prems e have p: "p = p0" and notin: "k \<notin> fst ` set ord"
      by (auto simp: rev_image_eqI)
    have "if expired (time_Now env (trace st @ replicate 0 Now)) (heap st ! p)
          then map_of (sessions (reap env st (e # ord))) k = None \<and>
               p \<in> set (spawned (reap env st (e # ord)))
          else map_of (sessions (reap env st (e # ord))) k = Some p"
      unfolding r using reap_other [OF notin, of env ?st1] reap_spawned_mono [of ?st1 env ord]
        Cons.prems(3)
      by (auto simp: True p delete_conv')
    then show ?thesis by (intro exI [of _ 0]) simp
  next
    case False
    with Cons.prems e have in_ord: "(k, p) \<in> set ord" and d: "distinct (map fst ord)"
      by auto
    from False Cons.prems(3) have m: "map_of (sessions ?st1) k = Some p"
      by (simp add: delete_conv')
    from Cons.IH [OF in_ord d m] obtain i where
      i: "i < length ord"
         "if expired (time_Now env (trace ?st1 @ replicate i Now)) (heap ?st1 ! p)
          then map_of (sessions (reap env ?st1 ord)) k = None \<and>
               p \<in> set (spawned (reap env ?st1 ord))
          else map_of (sessions (reap env ?st1 ord)) k = Some p"
      by blast
    have "trace ?st1 @ replicate i Now = trace st @ replicate (Suc i) Now"
      by (simp only: t1) simp
    with i(2) have "if expired (time_Now env (trace st @ replicate (Suc i) Now)) (heap st ! p)
          then map_of (sessions (reap env st (e # ord))) k = None \<and>
               p \<in> set (spawned (reap env st (e # ord)))
          else map_of (sessions (reap env st (e # ord))) k = Some p"
      unfolding r h1 by simp
    with i(1) show ?thesis by (intro exI [of _ "Suc i"]) simp
  qed
qed

lemma reap_spawned_new:
  assumes "set ord \<subseteq> Map.graph (map_of (sessions st))" and "distinct (map fst ord)"
  shows "set (spawned (reap env st ord)) =
           set (spawned st) \<union>
           {q. \<exists>k. (k, q) \<in> set ord \<and> map_of (sessions (reap env st ord)) k = None}"
  using assms
proof (induction ord arbitrary: st)
  case Nil
  then show ?case by simp
next
  case (Cons e ord)
  obtain k0 p0 where e: "e = (k0, p0)" by (cases e)
  define st1 where "st1 = (if expired (time_Now env (trace st)) (heap st ! p0)
        then (log_Printf (did st Now)
                 (''Session '' @ k0 @ '' inactive for more than 10m0s and will be removed''))
                \<lparr>sessions := AList.delete k0 (sessions st), spawned := spawned st @ [p0]\<rparr>
        else did st Now)"
  have r: "reap env st (e # ord) = reap env st1 ord" unfolding e st1_def by (rule reap_Cons)
  have sess1: "sessions st1 = (if expired (time_Now env (trace st)) (heap st ! p0)
                               then AList.delete k0 (sessions st) else sessions st)"
    and spawn1: "spawned st1 = (if expired (time_Now env (trace st)) (heap st ! p0)
                               then spawned st @ [p0] else spawned st)"
    by (simp_all add: st1_def)
  from Cons.prems e have notin: "k0 \<notin> fst ` set ord" and d: "distinct (map fst ord)"
    and k0: "map_of (sessions st) k0 = Some p0"
    by (auto simp: Map.graph_def)
  have sub: "set ord \<subseteq> Map.graph (map_of (sessions st1))"
  proof
    fix x assume x: "x \<in> set ord"
    obtain k q where kq: "x = (k, q)" by (cases x)
    with x notin have "k \<noteq> k0" by (auto simp: rev_image_eqI)
    moreover from x kq Cons.prems(1) have "map_of (sessions st) k = Some q"
      by (auto simp: Map.graph_def)
    ultimately show "x \<in> Map.graph (map_of (sessions st1))"
      by (simp add: kq Map.graph_def delete_conv' sess1)
  qed
  note IH = Cons.IH [OF sub d]
  have k0': "map_of (sessions (reap env st1 ord)) k0 = map_of (sessions st1) k0"
    by (rule reap_other [OF notin])
  have n: "map_of (sessions (reap env st1 ord)) k0 = None
             \<longleftrightarrow> expired (time_Now env (trace st)) (heap st ! p0)"
    unfolding k0' sess1 using k0 by (simp add: delete_conv')
  have split: "{q. \<exists>k. (k, q) \<in> set ((k0, p0) # ord) \<and> P k}
                = (if P k0 then {p0} else {}) \<union> {q. \<exists>k. (k, q) \<in> set ord \<and> P k}" for P
    by auto
  have "set (spawned (reap env st1 ord)) =
           set (spawned st) \<union>
           {q. \<exists>k. (k, q) \<in> set ((k0, p0) # ord) \<and> map_of (sessions (reap env st1 ord)) k = None}"
    unfolding split IH n spawn1 by auto
  then show ?case unfolding r unfolding e .
qed

lemma length_go_range: "length (go_range ks m) = card (dom (map_of m))"
proof -
  have "length (go_range ks m) = length (range_keys ks m)"
    by (simp add: go_range_eq)
  also have "\<dots> = card (set (range_keys ks m))"
    by (simp add: distinct_card distinct_range_keys)
  finally show ?thesis by (simp add: set_range_keys dom_map_of_conv_image_fst)
qed

subsection \<open>Steps of the server\<close>

lemma evolves_same:
  "same_store st st' \<Longrightarrow> extends st st' \<Longrightarrow> evolves env st st'"
  by (auto simp: evolves_def same_store_def)

lemma closeSessionHandler_extends:
  "extends st (fst (closeSessionHandler env st sid))"
  using cleanupSession_extends [of "st\<lparr>sessions := AList.delete sid (sessions st)\<rparr>" env]
  by (auto simp: closeSessionHandler_def Let_def extends_def split: option.splits)

lemma closeSessionHandler_heap:
  "heap (fst (closeSessionHandler env st sid)) = heap st \<and>
   spawned (fst (closeSessionHandler env st sid)) = spawned st \<and>
   (sessions (fst (closeSessionHandler env st sid)) = sessions st \<or>
    sessions (fst (closeSessionHandler env st sid)) = AList.delete sid (sessions st))"
  using cleanupSession_store [of "st\<lparr>sessions := AList.delete sid (sessions st)\<rparr>" env]
  by (auto simp: closeSessionHandler_def Let_def same_store_def split: option.splits)

lemma closeSessionHandler_evolves: "evolves env st (fst (closeSessionHandler env st sid))"
  using closeSessionHandler_extends [of st env sid] closeSessionHandler_heap [of env st sid]
  by (auto simp: evolves_def)

lemma run_spawned_evolves: "evolves env st (run_spawned env st i)"
  using cleanupSession_store
          [of "st\<lparr>spawned := take i (spawned st) @ drop (Suc i) (spawned st)\<rparr>" env]
        cleanupSession_extends
          [of "st\<lparr>spawned := take i (spawned st) @ drop (Suc i) (spawned st)\<rparr>" env]
  by (auto simp: run_spawned_def evolves_def same_store_def extends_def)

lemma run_spawned_sessions: "sessions (run_spawned env st i) = sessions st"
  using cleanupSession_store
          [of "st\<lparr>spawned := take i (spawned st) @ drop (Suc i) (spawned st)\<rparr>" env]
  by (auto simp: run_spawned_def same_store_def)

lemma tick_evolves: "evolves env st (sessionCleaner_tick env st)"
  by (auto simp: evolves_def extends_def sessionCleaner_tick_def reap_heap reap_trace)

lemma tick_sessions:
  "map_of (sessions (sessionCleaner_tick env st)) k = Some q \<Longrightarrow> map_of (sessions st) k = Some q"
  using reap_subset [of env "did st Range"] by (simp add: sessionCleaner_tick_def)

lemma touch_evolves:
  assumes "extends st st0" and "heap st0 = heap st" and "extends (did st0 Now) st'"
    and "heap st' = (heap st0)[p := (heap st0 ! p)\<lparr>lastActive := time_Now env (trace st0)\<rparr>]"
  shows "evolves env st st'"
proof -
  from assms(1) obtain e0 where e0: "trace st0 = trace st @ e0" by (auto simp: extends_def)
  from assms(3) obtain e1 where e1: "trace st' = trace st0 @ Now # e1"
    by (auto simp: extends_def)
  have p1: "prefix (trace st) (trace st0)" and p2: "prefix (trace st0) (trace st')"
    by (simp_all add: e0 e1)
  show ?thesis
    unfolding evolves_def
  proof (intro conjI allI impI)
    show "extends st st'" by (simp add: extends_def e0 e1)
    show "length (heap st) \<le> length (heap st')" by (simp add: assms)
    fix q assume q: "q < length (heap st')"
    show "(q < length (heap st) \<and> heap st' ! q = heap st ! q) \<or>
         (\<exists>t1. prefix (trace st) t1 \<and> prefix t1 (trace st') \<and>
               lastActive (heap st' ! q) = time_Now env t1 \<and>
               (q < length (heap st) \<longrightarrow>
                  heap st' ! q = (heap st ! q)\<lparr>lastActive := time_Now env t1\<rparr>))"
    proof (cases "q = p")
      case True
      with q p1 p2 show ?thesis
        by (intro disjI2 exI [of _ "trace st0"]) (simp add: assms)
    next
      case False
      with q show ?thesis by (simp add: assms)
    qed
  qed
qed

lemma wsHandler_attach_sessions:
  "sessions (fst (wsHandler_attach env st sid mid)) = sessions st"
  by (auto simp: wsHandler_attach_def Let_def split: option.splits)

lemma wsHandler_attach_evolves: "evolves env st (fst (wsHandler_attach env st sid mid))"
proof (cases "sid \<noteq> [] \<and> (mid = ''1'' \<or> mid = ''2'') \<and> map_of (sessions st) sid \<noteq> None")
  case False
  then have "fst (wsHandler_attach env st sid mid) = st"
    by (auto simp: wsHandler_attach_def)
  then show ?thesis by (simp add: evolves_def extends_def)
next
  case True
  then obtain p where p: "map_of (sessions st) sid = Some p" by blast
  show ?thesis
  proof (rule touch_evolves [where ?st0.0 = st and p = p])
    show "extends (did st Now) (fst (wsHandler_attach env st sid mid))"
      using True p
      by (auto simp: wsHandler_attach_def Let_def extends_def split: option.splits)
    show "heap (fst (wsHandler_attach env st sid mid)) =
            (heap st)[p := (heap st ! p)\<lparr>lastActive := time_Now env (trace st)\<rparr>]"
      using True p
      by (auto simp: wsHandler_attach_def Let_def split: option.splits)
  qed (simp_all add: extends_def)
qed

lemma ws_read_step_sessions:
  "sessions (fst (ws_read_step env st p ptmx r)) = sessions st"
  by (auto simp: ws_read_step_def Let_def split: ws_read.splits option.splits)

lemma ws_read_step_evolves: "evolves env st (fst (ws_read_step env st p ptmx r))"
proof (cases "snd (ws_read_step env st p ptmx r)")
  case False
  then have "heap (fst (ws_read_step env st p ptmx r)) = heap st"
    and "extends st (fst (ws_read_step env st p ptmx r))"
    by (auto simp: ws_read_step_def Let_def extends_def split: ws_read.splits option.splits if_splits)
  then show ?thesis by (auto simp: evolves_def)
next
  case True
  then obtain ty msg where r: "r = Message ty msg"
    by (cases r) (auto simp: ws_read_step_def)
  define st0 where "st0 = (if ty = BinaryMessage \<or> ty = TextMessage
                           then did st (PtyWrite ptmx msg) else st)"
  show ?thesis
  proof (rule touch_evolves [where ?st0.0 = st0 and p = p])
    show "extends st st0" "heap st0 = heap st" by (simp_all add: st0_def extends_def)
    show "extends (did st0 Now) (fst (ws_read_step env st p ptmx r))"
      using True
      by (auto simp: r st0_def ws_read_step_def Let_def extends_def split: option.splits)
    show "heap (fst (ws_read_step env st p ptmx r)) =
            (heap st0)[p := (heap st0 ! p)\<lparr>lastActive := time_Now env (trace st0)\<rparr>]"
      using True
      by (auto simp: r st0_def ws_read_step_def Let_def split: option.splits)
  qed
qed

lemma createSession_Inr_decomp:
  assumes "createSession env st = (st', Inr p)"
  obtains h st3 st4 st5 where
    "length h = 6" "set h \<subseteq> set hextable" "p = length (heap st)"
    "generateShortHash env st 6 = (did st (RandRead 3), Inr h)"
    "setupNetwork env
       ((did (did st (RandRead 3)) Now)
          \<lparr>heap := heap st @ [new_session h (time_Now env (trace st @ [RandRead 3]))]\<rparr>)
       (new_session h (time_Now env (trace st @ [RandRead 3]))) = (st3, None)"
    "startMachine env st3 p ''1'' (''tap1-'' @ h) = (st4, None)"
    "startMachine env st4 p ''2'' (''tap2-'' @ h) = (st5, None)"
    "st' = log_Printf (st5\<lparr>sessions := AList.update h p (sessions st5)\<rparr>)
             (''Session '' @ h @ '' created'')"
proof -
  obtain st1 x where g: "generateShortHash env st 6 = (st1, x)" by fastforce
  from generateShortHash_6 [OF g] have st1: "st1 = did st (RandRead 3)"
    and hx: "\<And>h. x = Inr h \<Longrightarrow> length h = 6 \<and> set h \<subseteq> set hextable" by auto
  from assms g obtain h where x: "x = Inr h"
    by (cases x) (auto simp: createSession_def)
  note h = hx [OF x]
  let ?s = "new_session h (time_Now env (trace st @ [RandRead 3]))"
  let ?st2 = "(did (did st (RandRead 3)) Now)\<lparr>heap := heap st @ [?s]\<rparr>"
  obtain st3 r3 where s3: "setupNetwork env ?st2 ?s = (st3, r3)" by fastforce
  obtain st4 r4 where s4: "startMachine env st3 (length (heap st)) ''1'' (''tap1-'' @ h) = (st4, r4)"
    by fastforce
  obtain st5 r5 where s5: "startMachine env st4 (length (heap st)) ''2'' (''tap2-'' @ h) = (st5, r5)"
    by fastforce
  from assms g x st1 h s3 s4 s5
  have "r3 = None \<and> r4 = None \<and> r5 = None \<and> p = length (heap st) \<and>
        st' = log_Printf (st5\<lparr>sessions := AList.update h p (sessions st5)\<rparr>)
             (''Session '' @ h @ '' created'')"
    by (auto simp: createSession_def Let_def new_session_def split: option.splits prod.splits)
  with that [of h st3 st4 st5] h g x st1 s3 s4 s5 show thesis by simp
qed

lemma createSession_Inl:
  assumes "createSession env st = (st', Inl f)"
  shows "sessions st' = sessions st \<and> spawned st' = spawned st"
  using assms
  apply (simp add: createSession_def Let_def split: prod.splits sum.splits option.splits if_splits)
  apply (auto simp: same_store_def
         dest!: generateShortHash_6 setupNetwork_store startMachine_ok startMachine_fail
                cleanupNetwork_store)
  done

lemma createSession_heap:
  assumes "createSession env st = (st', r)"
  shows "heap st' = heap st \<or>
         (\<exists>s. heap st' = heap st @ [s] \<and> lastActive s = time_Now env (trace st @ [RandRead 3]))"
  using assms
  apply (simp add: createSession_def Let_def split: prod.splits sum.splits option.splits if_splits)
  apply (auto simp: same_store_def
         dest!: generateShortHash_6 setupNetwork_store startMachine_ok startMachine_fail
                cleanupNetwork_store)
  done

lemma createSession_evolves: "evolves env st (fst (createSession env st))"
proof -
  obtain st' r where c: "createSession env st = (st', r)" by fastforce
  from createSession_extends [OF c] obtain ext where
    t: "trace st' = trace st @ RandRead 3 # ext" by blast
  have p: "prefix (trace st) (trace st @ [RandRead 3])"
          "prefix (trace st @ [RandRead 3]) (trace st')"
    by (simp_all add: t)
  from createSession_heap [OF c] show ?thesis
  proof
    assume "heap st' = heap st"
    with t show ?thesis by (simp add: c evolves_def extends_def)
  next
    assume "\<exists>s. heap st' = heap st @ [s] \<and>
                lastActive s = time_Now env (trace st @ [RandRead 3])"
    then obtain s where s: "heap st' = heap st @ [s]"
        "lastActive s = time_Now env (trace st @ [RandRead 3])" by blast
    show ?thesis
      unfolding evolves_def c fst_conv
    proof (intro conjI allI impI)
      show "extends st st'" by (simp add: extends_def t)
      show "length (heap st) \<le> length (heap st')" by (simp add: s)
      fix q assume "q < length (heap st')"
      then have "q < length (heap st) \<or> q = length (heap st)" by (auto simp: s)
      then consider "q < length (heap st)" | "q = length (heap st)" by blast
      then show "(q < length (heap st) \<and> heap st' ! q = heap st ! q) \<or>
         (\<exists>t1. prefix (trace st) t1 \<and> prefix t1 (trace st') \<and>
               lastActive (heap st' ! q) = time_Now env t1 \<and>
               (q < length (heap st) \<longrightarrow>
                  heap st' ! q = (heap st ! q)\<lparr>lastActive := time_Now env t1\<rparr>))"
      proof cases
        case 1
        then show ?thesis by (simp add: s nth_append)
      next
        case 2
        with p s show ?thesis
          by (intro disjI2 exI [of _ "trace st @ [RandRead 3]"]) simp
      qed
    qed
  qed
qed

lemma launched_extend: "launched env t m tap h \<Longrightarrow> launched env (t @ ext) m tap h"
  by (simp add: launched_def nth_append)

lemma network_up_extend: "network_up env t s \<Longrightarrow> network_up env (t @ ext) s"
  unfolding network_up_def by (meson prefix_order.trans prefixI)

lemma network_up_lastActive [simp]:
  "network_up env t (s\<lparr>lastActive := x\<rparr>) = network_up env t s"
  by (simp add: network_up_def)

lemma network_up_handles [simp]:
  "network_up env t (s\<lparr>ptyFiles := x\<rparr>) = network_up env t s"
  "network_up env t (s\<lparr>cmds := y\<rparr>) = network_up env t s"
  by (simp_all add: network_up_def)

lemma provisioned_stable:
  assumes "provisioned env st k p" and "evolves env st st'"
  shows "provisioned env st' k p"
proof -
  from assms(1) have p: "p < length (heap st)" by (simp add: provisioned_def)
  from assms(2) obtain ext where t: "trace st' = trace st @ ext"
    by (auto simp: evolves_def extends_def)
  from assms(2) p have p': "p < length (heap st')" by (simp add: evolves_def)
  with assms(2) p have "heap st' ! p = heap st ! p \<or>
      (\<exists>x. heap st' ! p = (heap st ! p)\<lparr>lastActive := x\<rparr>)"
    unfolding evolves_def by blast
  then show ?thesis
    using assms(1) p' launched_extend [of env "trace st" _ _ _ ext]
      network_up_extend [of env "trace st" _ ext]
    unfolding provisioned_def t by auto
qed

lemma startMachine_ok_trace:
  "startMachine env st p m tap = (st', None) \<Longrightarrow>
     trace st' = trace st @ [PtyStart (qemu_args m tap (hd m))] \<and>
     pty_Start env (trace st) (qemu_args m tap (hd m)) = None"
  by (auto simp: startMachine_def Let_def split: list.splits option.splits)

lemma createSession_provisioned:
  assumes "createSession env st = (st', Inr p)"
  shows "provisioned env st' (hash (heap st' ! p)) p \<and>
         sessions st' = AList.update (hash (heap st' ! p)) p (sessions st)"
proof -
  from assms obtain h st3 st4 st5 where
    h: "length h = 6" and p: "p = length (heap st)"
    and g: "generateShortHash env st 6 = (did st (RandRead 3), Inr h)"
    and s3: "setupNetwork env
       ((did (did st (RandRead 3)) Now)
          \<lparr>heap := heap st @ [new_session h (time_Now env (trace st @ [RandRead 3]))]\<rparr>)
       (new_session h (time_Now env (trace st @ [RandRead 3]))) = (st3, None)"
    and s4: "startMachine env st3 p ''1'' (''tap1-'' @ h) = (st4, None)"
    and s5: "startMachine env st4 p ''2'' (''tap2-'' @ h) = (st5, None)"
    and st': "st' = log_Printf (st5\<lparr>sessions := AList.update h p (sessions st5)\<rparr>)
             (''Session '' @ h @ '' created'')"
    by (rule createSession_Inr_decomp)
  let ?s = "new_session h (time_Now env (trace st @ [RandRead 3]))"
  let ?st2 = "(did (did st (RandRead 3)) Now)\<lparr>heap := heap st @ [?s]\<rparr>"
  have br: "bridgeName ?s = ''br-'' @ h" by (simp add: new_session_def)
  \<comment> \<open>the network\<close>
  obtain st2' x where ie: "interfaceExists env ?st2 (bridgeName ?s) = (st2', x)" by fastforce
  from s3 ie obtain found where x: "x = Inr found"
    by (cases x) (auto simp: setupNetwork_def)
  from setupNetwork_follows [OF s3 ie [unfolded x]] obtain acts ord where
    n: "trace st3 = trace ?st2 @ Exec [''ip'', ''link'', ''show'', bridgeName ?s] # acts"
       "distinct (map fst ord)" "set ord = Map.graph (map_of (tapNames ?s))"
       "follows env (trace ?st2 @ [Exec [''ip'', ''link'', ''show'', bridgeName ?s]]) acts
             (setup_plan (bridgeName ?s) found (map snd ord)) None"
    by blast
  have nu3: "network_up env (trace st3) ?s"
    unfolding network_up_def
    apply (rule exI [of _ "trace ?st2"], rule exI [of _ acts], rule exI [of _ found],
        rule exI [of _ ord])
    using n by simp
  \<comment> \<open>the store\<close>
  from setupNetwork_store [OF s3] have h3: "heap st3 = heap st @ [?s]"
    and ss3: "sessions st3 = sessions st"
    by (simp_all add: same_store_def)
  note m4 = startMachine_ok [OF s4] startMachine_ok_trace [OF s4]
  note m5 = startMachine_ok [OF s5] startMachine_ok_trace [OF s5]
  define h1 where "h1 = length (trace st3)"
  define h2 where "h2 = length (trace st4)"
  have h4: "heap st4 = heap st @ [?s\<lparr>ptyFiles := [(''1'', h1)], cmds := [(''1'', h1)]\<rparr>]"
    using m4(1) by (simp add: h3 p h1_def new_session_def)
  have h5: "heap st5 = heap st @
              [?s\<lparr>ptyFiles := [(''1'', h1), (''2'', h2)], cmds := [(''1'', h1), (''2'', h2)]\<rparr>]"
    using m5(1) by (simp add: h4 p h2_def new_session_def)
  have t4: "trace st4 = trace st3 @ [PtyStart (qemu_args ''1'' (''tap1-'' @ h) CHR ''1'')]"
    and t5: "trace st5 = trace st4 @ [PtyStart (qemu_args ''2'' (''tap2-'' @ h) CHR ''2'')]"
    using m4(2) m5(2) by simp_all
  have l1: "launched env (trace st5) ''1'' (''tap1-'' @ h) h1"
    using m4(2) by (simp add: launched_def t5 t4 h1_def nth_append)
  have l2: "launched env (trace st5) ''2'' (''tap2-'' @ h) h2"
    using m5(2) by (simp add: launched_def t5 h2_def nth_append)
  have nu5: "network_up env (trace st5) ?s"
    using network_up_extend [OF nu3, of "[PtyStart (qemu_args ''1'' (''tap1-'' @ h) CHR ''1''),
                                          PtyStart (qemu_args ''2'' (''tap2-'' @ h) CHR ''2'')]"]
    by (simp add: t5 t4)
  have obj: "heap st' ! p =
               ?s\<lparr>ptyFiles := [(''1'', h1), (''2'', h2)], cmds := [(''1'', h1), (''2'', h2)]\<rparr>"
    by (simp add: st' h5 p)
  have hash: "hash (heap st' ! p) = h" by (simp add: obj new_session_def)
  have nu5': "network_up env (trace st5)
                (?s\<lparr>ptyFiles := [(''1'', h1), (''2'', h2)], cmds := [(''1'', h1), (''2'', h2)]\<rparr>)"
    using nu5 by simp
  have "provisioned env st' h p"
    unfolding provisioned_def obj
    using l1 l2 nu5' by (simp add: st' h5 p new_session_def)
  moreover have "sessions st' = AList.update h p (sessions st)"
    using m4(1) m5(1) by (simp add: st' ss3)
  ultimately show ?thesis by (simp add: hash)
qed

lemma step_evolves: "step env st st' \<Longrightarrow> evolves env st st'"
  by (induction rule: step.induct)
     (simp_all add: createSession_evolves closeSessionHandler_evolves wsHandler_attach_evolves
        ws_read_step_evolves tick_evolves run_spawned_evolves)

lemma registry_inv_shrink:
  assumes "registry_inv env st" and "evolves env st st'"
    and "\<And>k q. map_of (sessions st') k = Some q \<Longrightarrow> map_of (sessions st) k = Some q"
  shows "registry_inv env st'"
  using assms provisioned_stable unfolding registry_inv_def by blast

lemma registry_inv_create:
  assumes "registry_inv env st"
  shows "registry_inv env (fst (createSession env st))"
proof -
  obtain st' r where c: "createSession env st = (st', r)" by fastforce
  have e: "evolves env st st'" using createSession_evolves [of env st] by (simp add: c)
  show ?thesis
  proof (cases r)
    case (Inl f)
    with c createSession_Inl have "sessions st' = sessions st" by blast
    with registry_inv_shrink [OF assms e] show ?thesis by (simp add: c)
  next
    case (Inr p)
    from createSession_provisioned [OF c [unfolded Inr]]
    have pr: "provisioned env st' (hash (heap st' ! p)) p"
      and s: "sessions st' = AList.update (hash (heap st' ! p)) p (sessions st)" by simp_all
    have "provisioned env st' k q" if "map_of (sessions st') k = Some q" for k q
    proof (cases "k = hash (heap st' ! p)")
      case True
      with that s pr show ?thesis by (simp add: update_conv')
    next
      case False
      with that s have "map_of (sessions st) k = Some q" by (simp add: update_conv')
      with assms have "provisioned env st k q" by (simp add: registry_inv_def)
      then show ?thesis using e by (rule provisioned_stable)
    qed
    then show ?thesis by (simp add: c registry_inv_def)
  qed
qed

lemma step_registry_inv:
  assumes "step env st st'" and "registry_inv env st"
  shows "registry_inv env st'"
  using assms
proof (induction rule: step.induct)
  case (create st)
  then show ?case by (rule registry_inv_create)
next
  case (close st sessionID)
  show ?case
  proof (rule registry_inv_shrink [OF close closeSessionHandler_evolves])
    fix k q assume "map_of (sessions (fst (closeSessionHandler env st sessionID))) k = Some q"
    with closeSessionHandler_heap [of env st sessionID]
    show "map_of (sessions st) k = Some q"
      by (auto simp: delete_conv' split: if_splits)
  qed
next
  case (attach st sessionID machineID)
  show ?case
    by (rule registry_inv_shrink [OF attach wsHandler_attach_evolves])
       (simp add: wsHandler_attach_sessions)
next
  case (message p st ptmx r)
  show ?case
    by (rule registry_inv_shrink [OF message(2) ws_read_step_evolves])
       (simp add: ws_read_step_sessions)
next
  case (tick st)
  show ?case
    by (rule registry_inv_shrink [OF tick tick_evolves]) (rule tick_sessions)
next
  case (goroutine st i)
  show ?case
    by (rule registry_inv_shrink [OF goroutine run_spawned_evolves])
       (simp add: run_spawned_sessions)
qed

lemma reachable_registry_inv: "reachable env st \<Longrightarrow> registry_inv env st"
proof (induction rule: reachable.induct)
  case start
  show ?case by (simp add: registry_inv_def init_def)
next
  case (later st st')
  then show ?case using step_registry_inv by blast
qed

lemma reachable_server1: "reachable env_ok server1"
  unfolding server1_def by (rule reachable.later [OF reachable.start step.create])

lemma interface_names_provisioned:
  "provisioned env st k p \<Longrightarrow>
     interface_names (heap st ! p) = {''br-'' @ k, ''tap1-'' @ k, ''tap2-'' @ k}"
  by (auto simp: provisioned_def interface_names_def)

lemma reachable_server2: "reachable env_two server2"
  unfolding server2_def
  by (rule reachable.later [OF reachable.later [OF reachable.start step.create] step.create])

subsection \<open>Time stamps\<close>

lemma evolves_clock_inv:
  assumes "mono_clock env" and "clock_inv env st" and "evolves env st st'"
  shows "clock_inv env st'"
  unfolding clock_inv_def
proof (intro allI impI)
  fix q ext assume q: "q < length (heap st')"
  from assms(3) obtain e where e: "trace st' = trace st @ e"
    by (auto simp: evolves_def extends_def)
  from assms(3) q consider
    (old) "q < length (heap st)" "heap st' ! q = heap st ! q"
    | (new) t1 where "prefix t1 (trace st')" "lastActive (heap st' ! q) = time_Now env t1"
    unfolding evolves_def by blast
  then show "lastActive (heap st' ! q) \<le> time_Now env (trace st' @ ext)"
  proof cases
    case old
    with assms(2) have "lastActive (heap st' ! q) \<le> time_Now env (trace st @ (e @ ext))"
      unfolding clock_inv_def by simp
    then show ?thesis by (simp add: e)
  next
    case new
    then obtain e1 where "trace st' = t1 @ e1" by (auto simp: prefix_def)
    with assms(1) new(2) show ?thesis
      unfolding mono_clock_def by (metis append.assoc)
  qed
qed

lemma evolves_lastActive_mono:
  assumes "clock_inv env st" and "evolves env st st'" and "q < length (heap st)"
  shows "lastActive (heap st ! q) \<le> lastActive (heap st' ! q)"
proof -
  from assms(2,3) have "q < length (heap st')" by (simp add: evolves_def)
  with assms(2) consider
    (old) "heap st' ! q = heap st ! q"
    | (new) t1 where "prefix (trace st) t1" "lastActive (heap st' ! q) = time_Now env t1"
    unfolding evolves_def by blast
  then show ?thesis
  proof cases
    case old
    then show ?thesis by simp
  next
    case new
    then obtain e where "t1 = trace st @ e" by (auto simp: prefix_def)
    with assms(1,3) new(2) show ?thesis by (simp add: clock_inv_def)
  qed
qed

lemma reachable_clock_inv:
  assumes "mono_clock env" and "reachable env st"
  shows "clock_inv env st"
  using assms(2)
proof (induction rule: reachable.induct)
  case start
  show ?case by (simp add: clock_inv_def init_def)
next
  case (later st st')
  from evolves_clock_inv [OF assms(1) later.IH step_evolves [OF later.hyps(2)]]
  show ?case .
qed

lemma wsHandler_attach_touch:
  assumes "sessionID \<noteq> []" and "machineID = ''1'' \<or> machineID = ''2''"
    and "map_of (sessions st) sessionID = Some p" and "p < length (heap st)"
  shows "lastActive (heap (fst (wsHandler_attach env st sessionID machineID)) ! p)
           = time_Now env (trace st) \<and>
         trace (fst (wsHandler_attach env st sessionID machineID)) ! length (trace st) = Now"
  using assms
  by (auto simp: wsHandler_attach_def Let_def nth_append split: option.splits)

lemma wsHandler_attach_found:
  assumes "wsHandler_attach env st sessionID machineID = (st', r)"
    and "\<forall>code body. r \<noteq> HttpError code body"
  shows "sessionID \<noteq> [] \<and> (machineID = ''1'' \<or> machineID = ''2'') \<and>
         (\<exists>p. map_of (sessions st) sessionID = Some p)"
  using assms
  by (auto simp: wsHandler_attach_def Let_def split: option.splits if_splits)

lemma ws_read_step_continues:
  "snd (ws_read_step env st p ptmx (Message ty msg)) =
     (\<not> ((ty = BinaryMessage \<or> ty = TextMessage) \<and> File_Write env (trace st) ptmx msg \<noteq> None))"
  by (auto simp: ws_read_step_def Let_def split: option.splits)

lemma ws_read_step_stops:
  "\<not> snd (ws_read_step env st p ptmx r) \<Longrightarrow> heap (fst (ws_read_step env st p ptmx r)) = heap st"
  by (auto simp: ws_read_step_def Let_def split: ws_read.splits option.splits if_splits)

lemma ws_read_step_touch:
  assumes "ws_read_step env st p ptmx (Message ty msg) = (st', True)" and "p < length (heap st)"
  shows "trace st' \<noteq> [] \<and> last (trace st') = Now \<and> prefix (trace st) (butlast (trace st')) \<and>
         lastActive (heap st' ! p) = time_Now env (butlast (trace st'))"
  using assms
  by (auto simp: ws_read_step_def Let_def butlast_append split: option.splits if_splits)

lemma mono_clock_env_ok: "mono_clock env_ok"
  by (simp add: mono_clock_def env_ok_def)

lemma mono_clock_env_late: "mono_clock env_late"
  by (simp add: mono_clock_def env_late_def)

section \<open>The claims\<close>

subsection \<open>C1: rollback of a failed createSession\<close>

text \<open>
  Claim C1 asks that a failed \<^verbatim>\<open>createSession\<close> leave no interface and no VM process of
  the attempted session behind. The two failure paths for the machines call
  \<^verbatim>\<open>cleanupNetwork\<close> only, and the failure path of \<^verbatim>\<open>setupNetwork\<close> calls nothing.

  In the first run the launch of machine 2 fails after machine 1 was started (the call
  at position 12 of the trace, answered without error): the error is returned, the
  network commands of the cleanup are run, and no \<^verbatim>\<open>Kill\<close> and no \<^verbatim>\<open>Close\<close> is ever issued for
  the handle 12 of machine 1, which the dropped session object still holds. In the second
  run the creation of the first tap fails after the bridge was created: the error is
  returned and no cleanup command is run at all. In both runs the registry stays empty.
\<close>

theorem createSession_leaves_machine1_running:
  "snd (createSession env_vm2_fails init)
     = Inl (Err ''failed to start machine 2: error starting QEMU machine 2: fork/exec /usr/bin/qemu-system-x86_64: cannot allocate memory'') \<and>
   trace (fst (createSession env_vm2_fails init)) ! 12
     = PtyStart (qemu_args ''1'' ''tap1-ababab'' CHR ''1'') \<and>
   pty_Start env_vm2_fails (take 12 (trace (fst (createSession env_vm2_fails init))))
       (qemu_args ''1'' ''tap1-ababab'' CHR ''1'') = None \<and>
   cmds (heap (fst (createSession env_vm2_fails init)) ! 0) = [(''1'', 12)] \<and>
   ptyFiles (heap (fst (createSession env_vm2_fails init)) ! 0) = [(''1'', 12)] \<and>
   drop 13 (trace (fst (createSession env_vm2_fails init)))
     = [PtyStart (qemu_args ''2'' ''tap2-ababab'' CHR ''2''),
        Range,
        Exec [''ip'', ''link'', ''set'', ''br-ababab'', ''down''],
        Exec [''ip'', ''link'', ''delete'', ''br-ababab'', ''type'', ''bridge''],
        Exec [''ip'', ''link'', ''set'', ''tap1-ababab'', ''down''],
        Exec [''ip'', ''link'', ''delete'', ''tap1-ababab''],
        Exec [''ip'', ''link'', ''set'', ''tap2-ababab'', ''down''],
        Exec [''ip'', ''link'', ''delete'', ''tap2-ababab'']] \<and>
   Kill 12 \<notin> set (trace (fst (createSession env_vm2_fails init))) \<and>
   Close 12 \<notin> set (trace (fst (createSession env_vm2_fails init))) \<and>
   sessions (fst (createSession env_vm2_fails init)) = [] \<and>
   snd (createSession env_tap_fails init)
     = Inl (Err ''failed to set up network: failed to create TAP device tap1-ababab: command 'ip tuntap add mode tap tap1-ababab' failed: exit status 1, output: ioctl(TUNSETIFF): Device or resource busy'') \<and>
   trace (fst (createSession env_tap_fails init))
     = [RandRead 3, Now,
        Exec [''ip'', ''link'', ''show'', ''br-ababab''],
        Exec [''ip'', ''link'', ''add'', ''br-ababab'', ''type'', ''bridge''],
        Exec [''ip'', ''link'', ''set'', ''br-ababab'', ''up''],
        Range,
        Exec [''ip'', ''tuntap'', ''add'', ''mode'', ''tap'', ''tap1-ababab'']] \<and>
   fst (exec_CombinedOutput env_tap_fails [RandRead 3, Now,
          Exec [''ip'', ''link'', ''show'', ''br-ababab'']]
        [''ip'', ''link'', ''add'', ''br-ababab'', ''type'', ''bridge'']) = None"
  by code_simp

subsection \<open>C2: every registered session is fully provisioned\<close>

text \<open>
  Claim C2. In every state the server can reach, every session in the registry is fully
  provisioned (\<open>provisioned\<close>): its object holds a pseudoterminal handle and a process
  handle for exactly the machine ids 1 and 2, each from a launch that returned no error,
  and its network was set up without error. A call of \<^verbatim>\<open>createSession\<close> that returns an
  error leaves the registry as it was; a call that returns a session has inserted it
  after \<^verbatim>\<open>setupNetwork\<close> and both calls of \<^verbatim>\<open>startMachine\<close> returned \<^verbatim>\<open>nil\<close>, the registry
  untouched until then.
\<close>

theorem registry_fully_provisioned:
  "(reachable env st \<and> map_of (sessions st) sessionID = Some p \<longrightarrow>
      p < length (heap st) \<and>
      fst ` set (ptyFiles (heap st ! p)) = {''1'', ''2''} \<and>
      fst ` set (cmds (heap st ! p)) = {''1'', ''2''} \<and>
      provisioned env st sessionID p) \<and>
   (\<forall>st' f. createSession env st0 = (st', Inl f) \<longrightarrow> sessions st' = sessions st0) \<and>
   (\<forall>st' q. createSession env st0 = (st', Inr q) \<longrightarrow>
      (\<exists>h st2 st3 st4 st5.
         trace st2 = trace st0 @ [RandRead 3, Now] \<and>
         heap st2 = heap st0 @ [new_session h (time_Now env (trace st0 @ [RandRead 3]))] \<and>
         sessions st2 = sessions st0 \<and>
         setupNetwork env st2 (heap st2 ! q) = (st3, None) \<and>
         startMachine env st3 q ''1'' (''tap1-'' @ h) = (st4, None) \<and>
         startMachine env st4 q ''2'' (''tap2-'' @ h) = (st5, None) \<and>
         sessions st5 = sessions st0 \<and>
         sessions st' = AList.update h q (sessions st0)))"
proof (intro conjI allI impI)
  assume a: "reachable env st \<and> map_of (sessions st) sessionID = Some p"
  with reachable_registry_inv have pr: "provisioned env st sessionID p"
    by (auto simp: registry_inv_def)
  then show "provisioned env st sessionID p" .
  from pr show "p < length (heap st)" by (simp add: provisioned_def)
  from pr show "fst ` set (ptyFiles (heap st ! p)) = {''1'', ''2''}"
    by (auto simp: provisioned_def)
  from pr show "fst ` set (cmds (heap st ! p)) = {''1'', ''2''}"
    by (auto simp: provisioned_def)
next
  fix st' f assume "createSession env st0 = (st', Inl f)"
  then show "sessions st' = sessions st0" by (simp add: createSession_Inl)
next
  fix st' q assume c: "createSession env st0 = (st', Inr q)"
  then obtain h st3 st4 st5 where
    q: "q = length (heap st0)"
    and s3: "setupNetwork env
       ((did (did st0 (RandRead 3)) Now)
          \<lparr>heap := heap st0 @ [new_session h (time_Now env (trace st0 @ [RandRead 3]))]\<rparr>)
       (new_session h (time_Now env (trace st0 @ [RandRead 3]))) = (st3, None)"
    and s4: "startMachine env st3 q ''1'' (''tap1-'' @ h) = (st4, None)"
    and s5: "startMachine env st4 q ''2'' (''tap2-'' @ h) = (st5, None)"
    and st': "st' = log_Printf (st5\<lparr>sessions := AList.update h q (sessions st5)\<rparr>)
             (''Session '' @ h @ '' created'')"
    by (rule createSession_Inr_decomp)
  let ?st2 = "(did (did st0 (RandRead 3)) Now)
          \<lparr>heap := heap st0 @ [new_session h (time_Now env (trace st0 @ [RandRead 3]))]\<rparr>"
  have s3': "setupNetwork env ?st2 (heap ?st2 ! q) = (st3, None)"
    using s3 by (simp add: q)
  have ss: "sessions st5 = sessions st0"
    using setupNetwork_store [OF s3] startMachine_ok [OF s4] startMachine_ok [OF s5]
    by (simp add: same_store_def)
  with st' have "sessions st' = AList.update h q (sessions st0)" by simp
  moreover have "trace ?st2 = trace st0 @ [RandRead 3, Now]"
    "heap ?st2 = heap st0 @ [new_session h (time_Now env (trace st0 @ [RandRead 3]))]"
    "sessions ?st2 = sessions st0" by simp_all
  ultimately
  show "\<exists>h st2 st3 st4 st5.
         trace st2 = trace st0 @ [RandRead 3, Now] \<and>
         heap st2 = heap st0 @ [new_session h (time_Now env (trace st0 @ [RandRead 3]))] \<and>
         sessions st2 = sessions st0 \<and>
         setupNetwork env st2 (heap st2 ! q) = (st3, None) \<and>
         startMachine env st3 q ''1'' (''tap1-'' @ h) = (st4, None) \<and>
         startMachine env st4 q ''2'' (''tap2-'' @ h) = (st5, None) \<and>
         sessions st5 = sessions st0 \<and>
         sessions st' = AList.update h q (sessions st0)"
    using s3' s4 s5 ss by blast
qed

theorem registry_fully_provisioned_witness:
  "reachable env_ok server1 \<and> map_of (sessions server1) ''ababab'' = Some 0 \<and>
   ptyFiles (heap server1 ! 0) = [(''1'', 12), (''2'', 13)] \<and>
   fst ` set (ptyFiles (heap server1 ! 0)) = {''1'', ''2''} \<and>
   fst ` set (cmds (heap server1 ! 0)) = {''1'', ''2''} \<and>
   provisioned env_ok server1 ''ababab'' 0 \<and>
   (\<exists>st' f. createSession env_vm2_fails init = (st', Inl f) \<and> sessions st' = sessions init) \<and>
   (\<exists>st' q. createSession env_ok init = (st', Inr q) \<and> sessions st' = [(''ababab'', q)])"
proof -
  have r2: "map_of (sessions server1) ''ababab'' = Some 0" by code_simp
  have r: "reachable env_ok server1 \<and> map_of (sessions server1) ''ababab'' = Some 0"
    using reachable_server1 r2 by (rule conjI)
  have p: "ptyFiles (heap server1 ! 0) = [(''1'', 12), (''2'', 13)]" by code_simp
  have "snd (createSession env_vm2_fails init)
            = Inl (Err ''failed to start machine 2: error starting QEMU machine 2: fork/exec /usr/bin/qemu-system-x86_64: cannot allocate memory'')"
    by code_simp
  then obtain st1 f where c1: "createSession env_vm2_fails init = (st1, Inl f)"
    by (metis prod.collapse)
  have "snd (createSession env_ok init) = Inr 0" by code_simp
  then have c2: "createSession env_ok init = (server1, Inr 0)"
    by (simp add: server1_def prod_eq_iff)
  have s2: "sessions server1 = [(''ababab'', 0)]" by code_simp
  note t = registry_fully_provisioned
    [where env = env_ok and st = server1 and sessionID = "''ababab''" and p = 0]
  note t' = registry_fully_provisioned [where env = env_vm2_fails and ?st0.0 = init]
  note a = t [THEN conjunct1, THEN mp, OF r]
  note b = t' [THEN conjunct2, THEN conjunct1, rule_format, OF c1]
  have e1: "\<exists>st' f. createSession env_vm2_fails init = (st', Inl f) \<and>
                    sessions st' = sessions init"
    using c1 b by blast
  have e2: "\<exists>st' q. createSession env_ok init = (st', Inr q) \<and> sessions st' = [(''ababab'', q)]"
    using c2 s2 by blast
  show ?thesis
    using reachable_server1 r2 p a e1 e2 by (intro conjI) (simp_all only:)
qed

subsection \<open>C3: the interface names of a new session\<close>

text \<open>
  Claim C3, as amended. When \<^verbatim>\<open>createSession\<close> succeeds in a reachable state, the
  interface names of the session it returns (its bridge and its two taps) have at most 15
  characters and are \<^verbatim>\<open>br-\<close>, \<^verbatim>\<open>tap1-\<close> and \<^verbatim>\<open>tap2-\<close> followed by the session id; the id
  is the hexadecimal encoding of the three bytes the random source delivered, and the
  session is registered under it. Every session that was registered under a different id
  when the call began is another object, is left as it was, stays registered, and has no
  interface name in common with the new session; the same holds of every other session
  registered when the call returns.

  The claim as stated has the names distinct from those of every other registered
  session. \<^verbatim>\<open>createSession\<close> never compares the id it drew with the ids in the registry, so
  this holds only for the sessions with a different id: the run after the witness draws
  the id of a registered session a second time. The new session then has the bridge and
  tap names of the registered one, whose machines were not killed, and takes its place
  in the registry.
\<close>

theorem createSession_interface_names:
  assumes "reachable env st" and "createSession env st = (st', Inr p)"
  shows "(\<forall>n \<in> interface_names (heap st' ! p). length n \<le> 15) \<and>
         hash (heap st' ! p)
           = hex_EncodeToString (map (snd (rand_Read env (trace st) 3)) [0..<3]) \<and>
         bridgeName (heap st' ! p) = ''br-'' @ hash (heap st' ! p) \<and>
         tapNames (heap st' ! p) = [(''1'', ''tap1-'' @ hash (heap st' ! p)),
                                    (''2'', ''tap2-'' @ hash (heap st' ! p))] \<and>
         map_of (sessions st') (hash (heap st' ! p)) = Some p \<and>
         (\<forall>k q. map_of (sessions st) k = Some q \<and> k \<noteq> hash (heap st' ! p) \<longrightarrow>
            q \<noteq> p \<and> map_of (sessions st') k = Some q \<and> heap st' ! q = heap st ! q \<and>
            interface_names (heap st ! q) \<inter> interface_names (heap st' ! p) = {}) \<and>
         (\<forall>k q. map_of (sessions st') k = Some q \<and> q \<noteq> p \<longrightarrow>
            interface_names (heap st' ! q) \<inter> interface_names (heap st' ! p) = {})"
proof -
  let ?h = "hash (heap st' ! p)"
  from createSession_ok [OF assms(2)] have len: "length ?h = 6"
    and p: "p = length (heap st)"
    and tk: "take (length (heap st)) (heap st') = heap st" by auto
  from createSession_provisioned [OF assms(2)]
  have pr: "provisioned env st' ?h p"
    and s: "sessions st' = AList.update ?h p (sessions st)" by simp_all
  have reg: "map_of (sessions st') ?h = Some p" by (simp add: s update_conv')
  have inv0: "registry_inv env st" using assms(1) by (rule reachable_registry_inv)
  have "reachable env st'"
    using reachable.later [OF assms(1) step.create [of env st]] by (simp add: assms(2))
  then have inv: "registry_inv env st'" by (rule reachable_registry_inv)
  note names = interface_names_provisioned [OF pr]
  have 1: "\<forall>n \<in> interface_names (heap st' ! p). length n \<le> 15"
    unfolding names using len by simp
  have 2: "bridgeName (heap st' ! p) = ''br-'' @ ?h"
    and 3: "tapNames (heap st' ! p) = [(''1'', ''tap1-'' @ ?h), (''2'', ''tap2-'' @ ?h)]"
    using pr by (simp_all add: provisioned_def)
  have 4: "interface_names (heap st' ! q) \<inter> interface_names (heap st' ! p) = {}"
    if "map_of (sessions st') k = Some q \<and> q \<noteq> p" for k q
  proof -
    from that inv have "provisioned env st' k q" by (simp add: registry_inv_def)
    note names' = interface_names_provisioned [OF this]
    from that reg have "k \<noteq> ?h" by auto
    then show ?thesis unfolding names names' by simp
  qed
  have 5: "q \<noteq> p \<and> map_of (sessions st') k = Some q \<and> heap st' ! q = heap st ! q \<and>
            interface_names (heap st ! q) \<inter> interface_names (heap st' ! p) = {}"
    if "map_of (sessions st) k = Some q \<and> k \<noteq> ?h" for k q
  proof -
    from that inv0 have pq: "provisioned env st k q" by (simp add: registry_inv_def)
    then have q: "q < length (heap st)" by (simp add: provisioned_def)
    have "heap st' ! q = take (length (heap st)) (heap st') ! q" using q by simp
    then have same: "heap st' ! q = heap st ! q" by (simp only: tk)
    have m: "map_of (sessions st') k = Some q" using that by (simp add: s update_conv')
    note names' = interface_names_provisioned [OF pq]
    from that have "interface_names (heap st ! q) \<inter> interface_names (heap st' ! p) = {}"
      unfolding names names' by simp
    with q p same m show ?thesis by simp
  qed
  from 1 2 3 reg 4 5 createSession_hash [OF assms(2)] show ?thesis by blast
qed

theorem createSession_interface_names_witness:
  "reachable env_two (fst (createSession env_two init)) \<and>
   createSession env_two (fst (createSession env_two init)) = (server2, Inr 1) \<and>
   map_of (sessions (fst (createSession env_two init))) ''ababab'' = Some 0 \<and>
   ''ababab'' \<noteq> hash (heap server2 ! 1) \<and>
   hash (heap server2 ! 1) = ''cdcdcd'' \<and>
   interface_names (heap server2 ! 1) = {''br-cdcdcd'', ''tap1-cdcdcd'', ''tap2-cdcdcd''} \<and>
   interface_names (heap (fst (createSession env_two init)) ! 0)
     = {''br-ababab'', ''tap1-ababab'', ''tap2-ababab''} \<and>
   map_of (sessions server2) ''ababab'' = Some 0 \<and>
   heap server2 ! 0 = heap (fst (createSession env_two init)) ! 0 \<and>
   interface_names (heap (fst (createSession env_two init)) ! 0)
     \<inter> interface_names (heap server2 ! 1) = {} \<and>
   interface_names (heap server2 ! 0) \<inter> interface_names (heap server2 ! 1) = {} \<and>
   bridgeName (heap server2 ! 1) = ''br-'' @ hash (heap server2 ! 1)"
proof -
  have r: "reachable env_two (fst (createSession env_two init))"
    by (rule reachable.later [OF reachable.start step.create])
  have "snd (createSession env_two (fst (createSession env_two init))) = Inr 1" by code_simp
  then have c: "createSession env_two (fst (createSession env_two init)) = (server2, Inr 1)"
    by (simp add: server2_def prod_eq_iff)
  have m0: "map_of (sessions (fst (createSession env_two init))) ''ababab'' = Some 0"
    by code_simp
  have h: "hash (heap server2 ! 1) = ''cdcdcd''" by code_simp
  have ne: "''ababab'' \<noteq> hash (heap server2 ! 1)" unfolding h by simp
  have n1: "interface_names (heap server2 ! 1)
              = {''br-cdcdcd'', ''tap1-cdcdcd'', ''tap2-cdcdcd''}"
    unfolding interface_names_def by code_simp
  have n0: "interface_names (heap (fst (createSession env_two init)) ! 0)
              = {''br-ababab'', ''tap1-ababab'', ''tap2-ababab''}"
    unfolding interface_names_def by code_simp
  have m1: "map_of (sessions server2) ''ababab'' = Some 0 \<and> (0::nat) \<noteq> 1"
    by (rule conjI) (code_simp, simp)
  note t = createSession_interface_names [OF r c]
  note pre = t [THEN conjunct2, THEN conjunct2, THEN conjunct2, THEN conjunct2, THEN conjunct2,
                THEN conjunct1, rule_format, OF conjI [OF m0 ne]]
  note post = t [THEN conjunct2, THEN conjunct2, THEN conjunct2, THEN conjunct2, THEN conjunct2,
                 THEN conjunct2, rule_format, OF m1]
  note b = t [THEN conjunct2, THEN conjunct2, THEN conjunct1]
  show ?thesis
    using r c m0 ne h n1 n0 pre [THEN conjunct2, THEN conjunct1]
      pre [THEN conjunct2, THEN conjunct2, THEN conjunct1]
      pre [THEN conjunct2, THEN conjunct2, THEN conjunct2] post b
    by (intro conjI)
qed

theorem createSession_repeated_id_shares_names:
  "reachable env_ok server1 \<and>
   map_of (sessions server1) ''ababab'' = Some 0 \<and>
   snd (createSession env_ok server1) = Inr 1 \<and>
   heap (fst (createSession env_ok server1)) ! 0 = heap server1 ! 0 \<and>
   interface_names (heap (fst (createSession env_ok server1)) ! 0)
     = {''br-ababab'', ''tap1-ababab'', ''tap2-ababab''} \<and>
   interface_names (heap (fst (createSession env_ok server1)) ! 1)
     = {''br-ababab'', ''tap1-ababab'', ''tap2-ababab''} \<and>
   interface_names (heap (fst (createSession env_ok server1)) ! 0)
     \<inter> interface_names (heap (fst (createSession env_ok server1)) ! 1) \<noteq> {} \<and>
   cmds (heap server1 ! 0) = [(''1'', 12), (''2'', 13)] \<and>
   Kill 12 \<notin> set (trace (fst (createSession env_ok server1))) \<and>
   Kill 13 \<notin> set (trace (fst (createSession env_ok server1))) \<and>
   spawned (fst (createSession env_ok server1)) = [] \<and>
   sessions (fst (createSession env_ok server1)) = [(''ababab'', 1)]"
proof -
  have r: "reachable env_ok server1"
    unfolding server1_def by (rule reachable.later [OF reachable.start step.create])
  have a: "map_of (sessions server1) ''ababab'' = Some 0" by code_simp
  have b: "snd (createSession env_ok server1) = Inr 1" by code_simp
  have c: "heap (fst (createSession env_ok server1)) ! 0 = heap server1 ! 0" by code_simp
  have e: "interface_names (heap (fst (createSession env_ok server1)) ! 0)
     = {''br-ababab'', ''tap1-ababab'', ''tap2-ababab''}"
    unfolding interface_names_def by code_simp
  have f: "interface_names (heap (fst (createSession env_ok server1)) ! 1)
     = {''br-ababab'', ''tap1-ababab'', ''tap2-ababab''}"
    unfolding interface_names_def by code_simp
  have d: "interface_names (heap (fst (createSession env_ok server1)) ! 0)
     \<inter> interface_names (heap (fst (createSession env_ok server1)) ! 1) \<noteq> {}"
    unfolding e f by simp
  have g: "cmds (heap server1 ! 0) = [(''1'', 12), (''2'', 13)]" by code_simp
  have h: "Kill 12 \<notin> set (trace (fst (createSession env_ok server1)))" by code_simp
  have i: "Kill 13 \<notin> set (trace (fst (createSession env_ok server1)))" by code_simp
  have j: "spawned (fst (createSession env_ok server1)) = []" by code_simp
  have k: "sessions (fst (createSession env_ok server1)) = [(''ababab'', 1)]" by code_simp
  from r a b c e f d g h i j k show ?thesis by (intro conjI)
qed

subsection \<open>C4: cleanupNetwork attempts every interface\<close>

text \<open>
  Claim C4, as amended. \<^verbatim>\<open>cleanupNetwork\<close> attempts, for every interface of the session, to
  bring it down and to delete it: first the bridge, then each tap device (in the order of
  the range over \<^verbatim>\<open>tapNames\<close>). All the commands are run whatever the earlier ones
  answered, and the call returns \<^verbatim>\<open>nil\<close>. A command that fails with a message of the
  already-gone shape logs nothing, any other failure logs an error line, a success logs a
  success line.

  The claim as stated has the tap devices processed before the bridge; the run after
  the theorem shows the two bridge commands issued first.
\<close>

theorem cleanupNetwork_bridge_then_taps:
  "(let taps = map snd (go_range (range_order env (trace st)) (tapNames s));
        cmds = [[''ip'', ''link'', ''set'', bridgeName s, ''down''],
                [''ip'', ''link'', ''delete'', bridgeName s, ''type'', ''bridge'']]
               @ concat (map (\<lambda>tap. [[''ip'', ''link'', ''set'', tap, ''down''],
                                      [''ip'', ''link'', ''delete'', tap]]) taps);
        st' = fst (cleanupNetwork env st s)
    in set taps = ran (map_of (tapNames s)) \<and>
       trace st' = trace st @ Range # map Exec cmds \<and>
       snd (cleanupNetwork env st s) = None \<and>
       logs st' =
         logs st @ concat (map (\<lambda>i. cleanup_log env (trace st @ Range # map Exec (take i cmds))
                                        (cmds ! i))
                             [0..<length cmds]))"
proof -
  have "set (map snd (go_range (range_order env (trace st)) (tapNames s)))
          = ran (map_of (tapNames s))"
    by (simp add: set_go_range snd_graph_ran)
  then show ?thesis
    using cleanupNetwork_run [of env st s]
    by (simp add: Let_def cleanup_list_def)
qed

theorem cleanupNetwork_bridge_first:
  "trace (fst (cleanupNetwork env_ok init session0)) =
     [Range,
      Exec [''ip'', ''link'', ''set'', ''br-ababab'', ''down''],
      Exec [''ip'', ''link'', ''delete'', ''br-ababab'', ''type'', ''bridge''],
      Exec [''ip'', ''link'', ''set'', ''tap1-ababab'', ''down''],
      Exec [''ip'', ''link'', ''delete'', ''tap1-ababab''],
      Exec [''ip'', ''link'', ''set'', ''tap2-ababab'', ''down''],
      Exec [''ip'', ''link'', ''delete'', ''tap2-ababab'']]"
  by code_simp

subsection \<open>C5: what cleanupNetwork returns\<close>

text \<open>
  Claim C5, as amended. \<^verbatim>\<open>cleanupNetwork\<close> reports success on every run. A cleanup command
  that fails with an error which is not of the already-gone shape is logged, and the
  call still returns \<^verbatim>\<open>nil\<close>.

  The claim as stated has such a call not report success; in the last run below the
  first command fails for want of privilege and the result is \<^verbatim>\<open>nil\<close>.
\<close>

theorem cleanupNetwork_always_succeeds:
  "snd (cleanupNetwork env st s) = None \<and>
   (let cmds = cleanup_list (bridgeName s)
                 (map snd (go_range (range_order env (trace st)) (tapNames s)))
    in \<forall>i e out.
         i < length cmds \<and>
         exec_CombinedOutput env (trace st @ Range # map Exec (take i cmds)) (cmds ! i)
           = (Some e, out) \<and>
         \<not> already_gone (command_failed (cmds ! i) e out) \<longrightarrow>
         ''Error executing cleanup command '' @ fmt_strings (cmds ! i) @ '': ''
            @ command_failed (cmds ! i) e out
           \<in> set (logs (fst (cleanupNetwork env st s))))"
proof -
  define cmds where
    "cmds = cleanup_list (bridgeName s)
              (map snd (go_range (range_order env (trace st)) (tapNames s)))"
  have "''Error executing cleanup command '' @ fmt_strings (cmds ! i) @ '': ''
            @ command_failed (cmds ! i) e out
           \<in> set (logs (fst (cleanupNetwork env st s)))"
    if "i < length cmds"
       "exec_CombinedOutput env (trace st @ Range # map Exec (take i cmds)) (cmds ! i)
           = (Some e, out)"
       "\<not> already_gone (command_failed (cmds ! i) e out)" for i e out
  proof -
    have "cleanup_log env (trace st @ Range # map Exec (take i cmds)) (cmds ! i) =
            [''Error executing cleanup command '' @ fmt_strings (cmds ! i) @ '': ''
               @ command_failed (cmds ! i) e out]"
      using that by (simp add: cleanup_log_def)
    then show ?thesis
      using cleanupNetwork_run [of env st s] that(1)
      unfolding Let_def cmds_def [symmetric]
      by (simp del: upt_Suc) force
  qed
  then show ?thesis
    using cleanupNetwork_run [of env st s]
    unfolding Let_def cmds_def [symmetric] by blast
qed

theorem cleanupNetwork_always_succeeds_witness:
  "(0::nat) < length (cleanup_list (bridgeName session0)
                 (map snd (go_range (range_order env_denied (trace init)) (tapNames session0)))) \<and>
   exec_CombinedOutput env_denied (trace init @ [Range])
       [''ip'', ''link'', ''set'', ''br-ababab'', ''down'']
     = (Some ''exit status 2'', ''RTNETLINK answers: Operation not permitted'') \<and>
   \<not> already_gone (command_failed [''ip'', ''link'', ''set'', ''br-ababab'', ''down'']
                     ''exit status 2'' ''RTNETLINK answers: Operation not permitted'') \<and>
   ''Error executing cleanup command [ip link set br-ababab down]: command 'ip link set br-ababab down' failed: exit status 2, output: RTNETLINK answers: Operation not permitted''
       \<in> set (logs (fst (cleanupNetwork env_denied init session0))) \<and>
   snd (cleanupNetwork env_denied init session0) = None"
proof -
  let ?cmds = "cleanup_list (bridgeName session0)
                 (map snd (go_range (range_order env_denied (trace init)) (tapNames session0)))"
  have c0: "?cmds ! 0 = [''ip'', ''link'', ''set'', ''br-ababab'', ''down'']" by code_simp
  have l: "(0::nat) < length ?cmds" by code_simp
  have e: "exec_CombinedOutput env_denied (trace init @ Range # map Exec (take 0 ?cmds))
             (?cmds ! 0)
           = (Some ''exit status 2'', ''RTNETLINK answers: Operation not permitted'')"
    by (simp add: env_denied_def)
  have g: "\<not> already_gone (command_failed (?cmds ! 0)
                     ''exit status 2'' ''RTNETLINK answers: Operation not permitted'')"
    unfolding c0 by code_simp
  have m: "''Error executing cleanup command '' @ fmt_strings (?cmds ! 0) @ '': ''
            @ command_failed (?cmds ! 0) ''exit status 2''
                ''RTNETLINK answers: Operation not permitted''
          = ''Error executing cleanup command [ip link set br-ababab down]: command 'ip link set br-ababab down' failed: exit status 2, output: RTNETLINK answers: Operation not permitted''"
    unfolding c0 by code_simp
  from cleanupNetwork_always_succeeds [of env_denied init session0] l e g
  have r: "''Error executing cleanup command '' @ fmt_strings (?cmds ! 0) @ '': ''
            @ command_failed (?cmds ! 0) ''exit status 2''
                ''RTNETLINK answers: Operation not permitted''
           \<in> set (logs (fst (cleanupNetwork env_denied init session0))) \<and>
        snd (cleanupNetwork env_denied init session0) = None"
    unfolding Let_def by blast
  have e': "exec_CombinedOutput env_denied (trace init @ [Range])
       [''ip'', ''link'', ''set'', ''br-ababab'', ''down'']
     = (Some ''exit status 2'', ''RTNETLINK answers: Operation not permitted'')"
    by (simp add: env_denied_def)
  note r1 = conjunct1 [OF r [unfolded m]] and r2 = conjunct2 [OF r] and g' = g [unfolded c0]
  show ?thesis
    using l e' g' r1 r2 by (intro conjI) assumption+
qed

theorem cleanupNetwork_hides_failure:
  "snd (cleanupNetwork env_denied init session0) = None \<and>
   snd (runCommand env_denied (did init Range) [''ip'', ''link'', ''set'', ''br-ababab'', ''down''])
     = Some (Err ''command 'ip link set br-ababab down' failed: exit status 2, output: RTNETLINK answers: Operation not permitted'') \<and>
   \<not> strings_Contains ''command 'ip link set br-ababab down' failed: exit status 2, output: RTNETLINK answers: Operation not permitted'' ''Cannot find device'' \<and>
   \<not> strings_Contains ''command 'ip link set br-ababab down' failed: exit status 2, output: RTNETLINK answers: Operation not permitted'' ''No such device'' \<and>
   trace (fst (cleanupNetwork env_denied init session0)) ! 1
     = Exec [''ip'', ''link'', ''set'', ''br-ababab'', ''down'']"
  by code_simp

subsection \<open>C6: the step sequence of setupNetwork\<close>


subsection \<open>C7: closing a session twice\<close>

text \<open>
  Claim C7. When a close request has removed a session id from the registry (status 200),
  a second close request with the same id answers 404 \<^verbatim>\<open>Session not found\<close> and leaves the
  whole state as it was: no call to the outside world is made, so the session is not torn
  down a second time.
\<close>

theorem closeSession_twice:
  assumes "closeSessionHandler env st sessionID = (st1, 200, body)"
  shows "closeSessionHandler env st1 sessionID = (st1, 404, ''Session not found'')"
proof -
  from closeSessionHandler_ok [OF assms]
  have "sessionID \<noteq> []" "sessions st1 = AList.delete sessionID (sessions st)" by auto
  then have "map_of (sessions st1) sessionID = None"
    by (simp add: delete_conv')
  with \<open>sessionID \<noteq> []\<close> show ?thesis
    by (simp add: closeSessionHandler_def)
qed

theorem closeSession_twice_witness:
  "\<exists>st1. closeSessionHandler env_ok server1 ''ababab'' = (st1, 200, []) \<and>
         closeSessionHandler env_ok st1 ''ababab'' = (st1, 404, ''Session not found'') \<and>
         Kill 12 \<in> set (trace st1) \<and> sessions st1 = []"
proof -
  define st1 where "st1 = fst (closeSessionHandler env_ok server1 ''ababab'')"
  have r: "snd (closeSessionHandler env_ok server1 ''ababab'') = (200, [])" by code_simp
  have k: "Kill 12 \<in> set (trace st1)" "sessions st1 = []" unfolding st1_def by code_simp+
  have c: "closeSessionHandler env_ok server1 ''ababab'' = (st1, 200, [])"
    using r by (simp add: st1_def prod_eq_iff)
  from closeSession_twice [OF c] c k show ?thesis by blast
qed

subsection \<open>C8: one tick of the idle reaper\<close>

text \<open>
  Claim C8. One tick of \<^verbatim>\<open>sessionCleaner\<close> reads the clock once for each registered session
  (the calls \<open>Now\<close> after the \<open>Range\<close> in the trace). A registered session whose
  \<^verbatim>\<open>lastActive\<close> is older than \<^verbatim>\<open>sessionTimeout\<close> at its reading is removed from the registry
  and, in the same step, its teardown is started (it is in \<open>spawned\<close>); a session that is
  not older than the timeout at its reading stays registered. So, with a clock that never
  goes back, a session that is older than the timeout when the tick begins is removed, and
  a session that is not older than the timeout when the tick ends is not. The sessions
  whose teardown the tick starts are exactly the ones it removes, no session is added,
  and no session object is changed.
\<close>

theorem reaper_tick:
  assumes "map_of (sessions st) sessionID = Some p"
  shows "(\<exists>i<card (dom (map_of (sessions st))).
            if time_Now env (trace st @ Range # replicate i Now) - lastActive (heap st ! p)
                 > sessionTimeout
            then map_of (sessions (sessionCleaner_tick env st)) sessionID = None \<and>
                 p \<in> set (spawned (sessionCleaner_tick env st))
            else map_of (sessions (sessionCleaner_tick env st)) sessionID = Some p) \<and>
         (mono_clock env \<and>
          time_Now env (trace st) - lastActive (heap st ! p) > sessionTimeout \<longrightarrow>
            map_of (sessions (sessionCleaner_tick env st)) sessionID = None \<and>
            p \<in> set (spawned (sessionCleaner_tick env st))) \<and>
         (mono_clock env \<and>
          time_Now env (trace (sessionCleaner_tick env st)) - lastActive (heap st ! p)
            \<le> sessionTimeout \<longrightarrow>
            map_of (sessions (sessionCleaner_tick env st)) sessionID = Some p) \<and>
         trace (sessionCleaner_tick env st)
           = trace st @ Range # replicate (card (dom (map_of (sessions st)))) Now \<and>
         heap (sessionCleaner_tick env st) = heap st \<and>
         set (spawned (sessionCleaner_tick env st))
           = set (spawned st) \<union>
             {q. \<exists>k. map_of (sessions st) k = Some q \<and>
                     map_of (sessions (sessionCleaner_tick env st)) k = None} \<and>
         (\<forall>k q. map_of (sessions (sessionCleaner_tick env st)) k = Some q
                  \<longrightarrow> map_of (sessions st) k = Some q)"
proof -
  define ord where "ord = go_range (range_order env (trace st)) (sessions st)"
  define n where "n = card (dom (map_of (sessions st)))"
  have tick: "sessionCleaner_tick env st = reap env (did st Range) ord"
    by (simp add: sessionCleaner_tick_def ord_def)
  have d: "distinct (map fst ord)" and g: "set ord = Map.graph (map_of (sessions st))"
    and l: "length ord = n"
    by (simp_all add: ord_def n_def distinct_go_range set_go_range length_go_range)
  from assms g have m: "(sessionID, p) \<in> set ord" by (simp add: Map.graph_def)
  have 1: "\<exists>i<n.
            if time_Now env (trace st @ Range # replicate i Now) - lastActive (heap st ! p)
                 > sessionTimeout
            then map_of (sessions (sessionCleaner_tick env st)) sessionID = None \<and>
                 p \<in> set (spawned (sessionCleaner_tick env st))
            else map_of (sessions (sessionCleaner_tick env st)) sessionID = Some p"
    unfolding tick using reap_entry [OF m d, of "did st Range" env] assms
    by (simp add: l expired_def split del: if_split)
  have 2: "trace (sessionCleaner_tick env st) = trace st @ Range # replicate n Now"
    by (simp add: tick reap_trace l)
  have 3: "heap (sessionCleaner_tick env st) = heap st"
    by (simp add: tick reap_heap)
  have "set ord \<subseteq> Map.graph (map_of (sessions (did st Range)))" using g by simp
  from reap_spawned_new [OF this d, of env]
  have 4: "set (spawned (sessionCleaner_tick env st))
           = set (spawned st) \<union>
             {q. \<exists>k. map_of (sessions st) k = Some q \<and>
                     map_of (sessions (sessionCleaner_tick env st)) k = None}"
    by (simp add: tick g Map.graph_def)
  have 5: "\<forall>k q. map_of (sessions (sessionCleaner_tick env st)) k = Some q
                  \<longrightarrow> map_of (sessions st) k = Some q"
    using reap_subset [of env "did st Range" ord] by (simp add: tick)
  from 1 obtain i where i: "i < n"
    "if time_Now env (trace st @ Range # replicate i Now) - lastActive (heap st ! p)
          > sessionTimeout
     then map_of (sessions (sessionCleaner_tick env st)) sessionID = None \<and>
          p \<in> set (spawned (sessionCleaner_tick env st))
     else map_of (sessions (sessionCleaner_tick env st)) sessionID = Some p"
    by blast
  have split: "trace (sessionCleaner_tick env st)
                 = (trace st @ Range # replicate i Now) @ replicate (n - i) Now"
    using i(1) by (simp add: 2 replicate_add [symmetric])
  have 6: "map_of (sessions (sessionCleaner_tick env st)) sessionID = None \<and>
           p \<in> set (spawned (sessionCleaner_tick env st))"
    if "mono_clock env \<and> time_Now env (trace st) - lastActive (heap st ! p) > sessionTimeout"
  proof -
    from that have "time_Now env (trace st)
                      \<le> time_Now env (trace st @ Range # replicate i Now)"
      by (simp add: mono_clock_def)
    with that i(2) show ?thesis by (simp split: if_splits)
  qed
  have 7: "map_of (sessions (sessionCleaner_tick env st)) sessionID = Some p"
    if "mono_clock env \<and>
        time_Now env (trace (sessionCleaner_tick env st)) - lastActive (heap st ! p)
          \<le> sessionTimeout"
  proof -
    from that have "time_Now env (trace st @ Range # replicate i Now)
                      \<le> time_Now env (trace (sessionCleaner_tick env st))"
      unfolding split mono_clock_def by blast
    with that i(2) show ?thesis by (simp split: if_splits)
  qed
  from 1 2 3 4 5 6 7 show ?thesis unfolding n_def by (intro conjI impI) blast+
qed

theorem reaper_tick_witness:
  "map_of (sessions server1) ''ababab'' = Some 0 \<and>
   mono_clock env_late \<and>
   time_Now env_late (trace server1) - lastActive (heap server1 ! 0) > sessionTimeout \<and>
   map_of (sessions (sessionCleaner_tick env_late server1)) ''ababab'' = None \<and>
   0 \<in> set (spawned (sessionCleaner_tick env_late server1)) \<and>
   sessions (sessionCleaner_tick env_late server1) = [] \<and>
   spawned (sessionCleaner_tick env_late server1) = [0] \<and>
   mono_clock env_ok \<and>
   time_Now env_ok (trace (sessionCleaner_tick env_ok server1)) - lastActive (heap server1 ! 0)
     \<le> sessionTimeout \<and>
   map_of (sessions (sessionCleaner_tick env_ok server1)) ''ababab'' = Some 0"
proof -
  have h: "map_of (sessions server1) ''ababab'' = Some 0" by code_simp
  have a: "time_Now env_late (trace server1) - lastActive (heap server1 ! 0) > sessionTimeout"
    by code_simp
  have b: "sessions (sessionCleaner_tick env_late server1) = []" by code_simp
  have c: "spawned (sessionCleaner_tick env_late server1) = [0]" by code_simp
  have e: "time_Now env_ok (trace (sessionCleaner_tick env_ok server1))
             - lastActive (heap server1 ! 0) \<le> sessionTimeout"
    by code_simp
  note t = reaper_tick [OF h, of env_late, THEN conjunct2, THEN conjunct1, rule_format,
                        OF conjI [OF mono_clock_env_late a]]
  note u = reaper_tick [OF h, of env_ok, THEN conjunct2, THEN conjunct2, THEN conjunct1,
                        rule_format, OF conjI [OF mono_clock_env_ok e]]
  show ?thesis
    using h mono_clock_env_late a t [THEN conjunct1] t [THEN conjunct2] b c
      mono_clock_env_ok e u
    by (intro conjI) (simp_all only:)
qed

subsection \<open>C9: when lastActive is updated\<close>

text \<open>
  Claim C9, as amended. A session's \<^verbatim>\<open>lastActive\<close> is set to the current time when
  \<^verbatim>\<open>createSession\<close> builds the session, on every WebSocket attach that finds the session
  (before the upgrade), and after every inbound message that was read without error and,
  when it is a text or binary message, written to the pseudoterminal without error. A
  message whose write to the pseudoterminal fails ends the loop and leaves every session
  object as it was. An update stores a clock reading taken after the message was read, so
  with a clock that never goes back the new value is at least every reading taken before
  the message arrived, and \<^verbatim>\<open>lastActive\<close> never decreases in any step of the server.

  The claim as stated has \<^verbatim>\<open>lastActive\<close> updated after every message read without error;
  in the run after the theorem a session is created at the time 1, a text message for its
  machine 1 is read when the clock stands at 14, the write to the pseudoterminal fails, and
  \<^verbatim>\<open>lastActive\<close> keeps the value 1.
\<close>

theorem lastActive_updates:
  "(\<forall>st' p. createSession env st = (st', Inr p) \<longrightarrow>
      lastActive (heap st' ! p) = time_Now env (trace st @ [RandRead 3]) \<and>
      trace st' ! Suc (length (trace st)) = Now) \<and>
   (\<forall>st' r. reachable env st \<and> wsHandler_attach env st sessionID machineID = (st', r) \<and>
            (\<forall>code body. r \<noteq> HttpError code body) \<longrightarrow>
      (\<exists>p. map_of (sessions st) sessionID = Some p \<and>
           lastActive (heap st' ! p) = time_Now env (trace st) \<and>
           trace st' ! length (trace st) = Now)) \<and>
   snd (ws_read_step env st q ptmx (Message ty msg)) =
      (\<not> ((ty = BinaryMessage \<or> ty = TextMessage) \<and>
          File_Write env (trace st) ptmx msg \<noteq> None)) \<and>
   (\<forall>st'. q < length (heap st) \<and> ws_read_step env st q ptmx (Message ty msg) = (st', True) \<longrightarrow>
      trace st' \<noteq> [] \<and> last (trace st') = Now \<and>
      lastActive (heap st' ! q) = time_Now env (butlast (trace st')) \<and>
      (mono_clock env \<longrightarrow>
         (\<forall>t. prefix t (trace st) \<longrightarrow> time_Now env t \<le> lastActive (heap st' ! q)))) \<and>
   (\<forall>st'. ws_read_step env st q ptmx (Message ty msg) = (st', False) \<longrightarrow> heap st' = heap st) \<and>
   (\<forall>st' n. mono_clock env \<and> reachable env st \<and> step env st st' \<and> n < length (heap st) \<longrightarrow>
      lastActive (heap st ! n) \<le> lastActive (heap st' ! n))"
proof (intro conjI allI impI)
  fix st' p assume c: "createSession env st = (st', Inr p)"
  from createSession_ok [OF c]
  show "lastActive (heap st' ! p) = time_Now env (trace st @ [RandRead 3])" by blast
  from c obtain h st3 st4 st5 where
    s3: "setupNetwork env
       ((did (did st (RandRead 3)) Now)
          \<lparr>heap := heap st @ [new_session h (time_Now env (trace st @ [RandRead 3]))]\<rparr>)
       (new_session h (time_Now env (trace st @ [RandRead 3]))) = (st3, None)"
    and s4: "startMachine env st3 p ''1'' (''tap1-'' @ h) = (st4, None)"
    and s5: "startMachine env st4 p ''2'' (''tap2-'' @ h) = (st5, None)"
    and st': "st' = log_Printf (st5\<lparr>sessions := AList.update h p (sessions st5)\<rparr>)
             (''Session '' @ h @ '' created'')"
    by (rule createSession_Inr_decomp)
  from setupNetwork_extends [OF s3] startMachine_extends [OF s4] startMachine_extends [OF s5]
  show "trace st' ! Suc (length (trace st)) = Now"
    by (auto simp: st' extends_def nth_append)
next
  fix st' r
  assume a: "reachable env st \<and> wsHandler_attach env st sessionID machineID = (st', r) \<and>
            (\<forall>code body. r \<noteq> HttpError code body)"
  from wsHandler_attach_found [of env st sessionID machineID st' r] a
  obtain p where f: "sessionID \<noteq> []" "machineID = ''1'' \<or> machineID = ''2''"
    "map_of (sessions st) sessionID = Some p" by blast
  from a reachable_registry_inv f(3) have "p < length (heap st)"
    by (auto simp: registry_inv_def provisioned_def)
  from wsHandler_attach_touch [OF f this, of env] a f(3)
  show "\<exists>p. map_of (sessions st) sessionID = Some p \<and>
           lastActive (heap st' ! p) = time_Now env (trace st) \<and>
           trace st' ! length (trace st) = Now"
    by auto
next
  show "snd (ws_read_step env st q ptmx (Message ty msg)) =
      (\<not> ((ty = BinaryMessage \<or> ty = TextMessage) \<and>
          File_Write env (trace st) ptmx msg \<noteq> None))"
    by (rule ws_read_step_continues)
next
  fix st'
  assume a: "q < length (heap st) \<and> ws_read_step env st q ptmx (Message ty msg) = (st', True)"
  then have s: "ws_read_step env st q ptmx (Message ty msg) = (st', True)"
    and q: "q < length (heap st)" by simp_all
  note t = ws_read_step_touch [OF s q]
  from t show "trace st' \<noteq> []" "last (trace st') = Now"
    "lastActive (heap st' ! q) = time_Now env (butlast (trace st'))" by simp_all
  {
    fix t' assume m: "mono_clock env" and p: "prefix t' (trace st)"
    from p t have "prefix t' (butlast (trace st'))" by (meson prefix_order.trans)
    then obtain e where "butlast (trace st') = t' @ e" by (auto simp: prefix_def)
    with m t show "time_Now env t' \<le> lastActive (heap st' ! q)"
      by (simp add: mono_clock_def)
  }
next
  fix st' assume "ws_read_step env st q ptmx (Message ty msg) = (st', False)"
  with ws_read_step_stops [of env st q ptmx "Message ty msg"]
  show "heap st' = heap st" by simp
next
  fix st' n
  assume a: "mono_clock env \<and> reachable env st \<and> step env st st' \<and> n < length (heap st)"
  then have "clock_inv env st" by (simp add: reachable_clock_inv)
  with a show "lastActive (heap st ! n) \<le> lastActive (heap st' ! n)"
    by (simp add: evolves_lastActive_mono step_evolves)
qed

theorem lastActive_not_updated_on_write_error:
  "snd (createSession env_write_fails init) = Inr 0 \<and>
   (let st = fst (createSession env_write_fails init) in
      map_of (sessions st) ''ababab'' = Some 0 \<and>
      map_of (ptyFiles (heap st ! 0)) ''1'' = Some 12 \<and>
      lastActive (heap st ! 0) = 1 \<and>
      time_Now env_write_fails (trace st) = 14 \<and>
      snd (ws_read_step env_write_fails st 0 12 (Message TextMessage ''ls'')) = False \<and>
      lastActive (heap (fst (ws_read_step env_write_fails st 0 12
                               (Message TextMessage ''ls''))) ! 0) = 1 \<and>
      lastActive (heap (ws_read_loop env_write_fails st 0 12
                          [Message TextMessage ''ls'', Message TextMessage ''pwd'']) ! 0) = 1)"
  by code_simp

theorem lastActive_updates_witness:
  "createSession env_ok init = (server1, Inr 0) \<and>
   lastActive (heap server1 ! 0) = time_Now env_ok (trace init @ [RandRead 3]) \<and>
   reachable env_ok server1 \<and> mono_clock env_ok \<and>
   (\<exists>stA. wsHandler_attach env_ok server1 ''ababab'' ''1'' = (stA, Attached 0 12) \<and>
          map_of (sessions server1) ''ababab'' = Some 0 \<and>
          lastActive (heap stA ! 0) = time_Now env_ok (trace server1) \<and>
          lastActive (heap stA ! 0) = 14) \<and>
   (\<exists>stM. ws_read_step env_ok server1 0 12 (Message TextMessage ''ls'') = (stM, True) \<and>
          step env_ok server1 stM \<and> 0 < length (heap server1) \<and>
          lastActive (heap stM ! 0) = time_Now env_ok (butlast (trace stM)) \<and>
          lastActive (heap stM ! 0) = 15 \<and>
          lastActive (heap server1 ! 0) \<le> lastActive (heap stM ! 0))"
proof -
  have "snd (createSession env_ok init) = Inr 0" by code_simp
  then have c: "createSession env_ok init = (server1, Inr 0)"
    by (simp add: server1_def prod_eq_iff)
  note r = reachable_server1
  note m = mono_clock_env_ok
  define stA where "stA = fst (wsHandler_attach env_ok server1 ''ababab'' ''1'')"
  have "snd (wsHandler_attach env_ok server1 ''ababab'' ''1'') = Attached 0 12" by code_simp
  then have a: "wsHandler_attach env_ok server1 ''ababab'' ''1'' = (stA, Attached 0 12)"
    by (simp add: stA_def prod_eq_iff)
  have s1: "map_of (sessions server1) ''ababab'' = Some 0" by code_simp
  have a14: "lastActive (heap stA ! 0) = 14" unfolding stA_def by code_simp
  define stM where "stM = fst (ws_read_step env_ok server1 0 12 (Message TextMessage ''ls''))"
  have "snd (ws_read_step env_ok server1 0 12 (Message TextMessage ''ls'')) = True" by code_simp
  then have w: "ws_read_step env_ok server1 0 12 (Message TextMessage ''ls'') = (stM, True)"
    by (simp add: stM_def prod_eq_iff)
  have l: "0 < length (heap server1)" by code_simp
  have st: "step env_ok server1 stM"
    unfolding stM_def by (rule step.message [OF l])
  have m15: "lastActive (heap stM ! 0) = 15" unfolding stM_def by code_simp
  note t = lastActive_updates [where env = env_ok]
  note t1 = t [where st = init, THEN conjunct1, rule_format, OF c, THEN conjunct1]
  have nh: "\<forall>code body. Attached 0 12 \<noteq> HttpError code body" by simp
  from t [where st = server1 and sessionID = "''ababab''" and machineID = "''1''",
          THEN conjunct2, THEN conjunct1, rule_format, of stA "Attached 0 12"] r a nh s1
  have t2: "lastActive (heap stA ! 0) = time_Now env_ok (trace server1)" by auto
  note t3 = t [where st = server1 and q = 0 and ptmx = 12 and ty = TextMessage and msg = "''ls''",
               THEN conjunct2, THEN conjunct2, THEN conjunct2, THEN conjunct1, rule_format,
               OF conjI [OF l w], THEN conjunct2, THEN conjunct2, THEN conjunct1]
  note t4 = t [where st = server1,
               THEN conjunct2, THEN conjunct2, THEN conjunct2, THEN conjunct2, THEN conjunct2,
               rule_format, OF conjI [OF m conjI [OF r conjI [OF st l]]]]
  have eA: "\<exists>stA. wsHandler_attach env_ok server1 ''ababab'' ''1'' = (stA, Attached 0 12) \<and>
          map_of (sessions server1) ''ababab'' = Some 0 \<and>
          lastActive (heap stA ! 0) = time_Now env_ok (trace server1) \<and>
          lastActive (heap stA ! 0) = 14"
    using a s1 t2 a14 by blast
  have eM: "\<exists>stM. ws_read_step env_ok server1 0 12 (Message TextMessage ''ls'') = (stM, True) \<and>
          step env_ok server1 stM \<and> 0 < length (heap server1) \<and>
          lastActive (heap stM ! 0) = time_Now env_ok (butlast (trace stM)) \<and>
          lastActive (heap stM ! 0) = 15 \<and>
          lastActive (heap server1 ! 0) \<le> lastActive (heap stM ! 0)"
    using w st l t3 m15 t4 by blast
  show ?thesis
    using c t1 r m eA eM by (intro conjI) (simp_all only:)
qed

subsection \<open>C10: session identifiers are six lowercase hexadecimal characters\<close>

text \<open>
  Claim C10. \<^verbatim>\<open>generateShortHash(n)\<close>, when it returns a hash, returns the hex encoding of
  \<open>\<lfloor>min(n, 12) / 2\<rfloor>\<close> random bytes, a string of twice that many characters, all of them
  lowercase hexadecimal digits; it does return one for every \<open>n \<ge> 0\<close> when the random
  source delivers. \<^verbatim>\<open>createSession\<close> asks for length 6, that is for 3 random bytes:
  the id of every session it returns (the key under which the session is registered) has
  exactly 6 lowercase hexadecimal characters, its bridge name has 9 characters and its two
  tap names 11 each, and no call ever returns the error of the 15-character check.
\<close>

theorem createSession_id_six_hex:
  "(\<forall>st1 h. generateShortHash env st n = (st1, Inr h) \<longrightarrow>
       h = hex_EncodeToString
             (map (snd (rand_Read env (trace st) (nat (min n 12 div 2))))
                  [0..<nat (min n 12 div 2)]) \<and>
       length h = 2 * nat (min n 12 div 2) \<and> set h \<subseteq> set ''0123456789abcdef'') \<and>
   (0 \<le> n \<and> fst (rand_Read env (trace st) (nat (min n 12 div 2))) = None \<longrightarrow>
       (\<exists>h. snd (generateShortHash env st n) = Inr h)) \<and>
   (\<forall>st' p. createSession env st = (st', Inr p) \<longrightarrow>
       trace st' ! length (trace st) = RandRead 3 \<and>
       length (hash (heap st' ! p)) = 6 \<and>
       set (hash (heap st' ! p)) \<subseteq> set ''0123456789abcdef'' \<and>
       map_of (sessions st') (hash (heap st' ! p)) = Some p \<and>
       length (bridgeName (heap st' ! p)) = 9 \<and>
       map (length \<circ> snd) (tapNames (heap st' ! p)) = [11, 11]) \<and>
   (\<forall>st' m. createSession env st = (st', Inl (Err m)) \<longrightarrow>
       \<not> prefix ''interface name too long'' m)"
proof (intro conjI allI impI)
  fix st' p assume a: "createSession env st = (st', Inr p)"
  from createSession_ok [OF a] obtain h where
    h: "length h = 6" "set h \<subseteq> set hextable" "sessions st' = AList.update h p (sessions st)"
       "hash (heap st' ! p) = h" "bridgeName (heap st' ! p) = ''br-'' @ h"
       "tapNames (heap st' ! p) = [(''1'', ''tap1-'' @ h), (''2'', ''tap2-'' @ h)]"
    by blast
  show "length (hash (heap st' ! p)) = 6" using h by simp
  show "set (hash (heap st' ! p)) \<subseteq> set ''0123456789abcdef''" using h by (simp add: hextable_def)
  show "map_of (sessions st') (hash (heap st' ! p)) = Some p" using h by (simp add: update_conv')
  show "length (bridgeName (heap st' ! p)) = 9" using h by simp
  show "map (length \<circ> snd) (tapNames (heap st' ! p)) = [11, 11]" using h by simp
  from createSession_extends [OF a] show "trace st' ! length (trace st) = RandRead 3"
    by (auto simp: nth_append)
next
  fix st' m assume a: "createSession env st = (st', Inl (Err m))"
  from createSession_err_text [OF a] show "\<not> prefix ''interface name too long'' m"
    by (cases m) auto
qed (use generateShortHash_result generateShortHash_returns in blast)+

theorem createSession_id_six_hex_witness:
  "\<exists>st' p. createSession env_ok init = (st', Inr p) \<and>
      hash (heap st' ! p) = ''ababab'' \<and> length (hash (heap st' ! p)) = 6 \<and>
      length (bridgeName (heap st' ! p)) = 9 \<and>
      map (length \<circ> snd) (tapNames (heap st' ! p)) = [11, 11] \<and>
      (0::int) \<le> 6 \<and> fst (rand_Read env_ok (trace init) (nat (min 6 12 div 2))) = None \<and>
      (\<exists>h. snd (generateShortHash env_ok init 6) = Inr h)"
proof -
  define st' where "st' = fst (createSession env_ok init)"
  have r: "snd (createSession env_ok init) = Inr 0" by code_simp
  have hh: "hash (heap st' ! 0) = ''ababab''" unfolding st'_def by code_simp
  have c: "createSession env_ok init = (st', Inr 0)"
    using r by (simp add: st'_def prod_eq_iff)
  have rd: "fst (rand_Read env_ok (trace init) (nat (min 6 12 div 2))) = None"
    by (simp add: env_ok_def)
  have n: "(0::int) \<le> 6" by simp
  from createSession_id_six_hex [of env_ok init 6] c rd n
  have "length (hash (heap st' ! 0)) = 6 \<and> length (bridgeName (heap st' ! 0)) = 9 \<and>
        map (length \<circ> snd) (tapNames (heap st' ! 0)) = [11, 11] \<and>
        (\<exists>h. snd (generateShortHash env_ok init 6) = Inr h)"
    by blast
  with c hh rd show ?thesis
    by (intro exI [of _ st'] exI [of _ "0::nat"]) simp
qed

end
